theory Spec2Isabelle
  imports Main "HOL-Library.Sublist"
begin

section \<open>The result model and the node contract\<close>

text \<open>
  \<^verbatim>\<open>type State int\<close> with the constants \<^verbatim>\<open>Unknown = 0\<close>, \<^verbatim>\<open>Running = 1\<close>,
  \<^verbatim>\<open>Success = 2\<close>, \<^verbatim>\<open>Failure = 3\<close> (an \<^verbatim>\<open>iota\<close> block). A \<^verbatim>\<open>State\<close> is any integer:
  every \<^verbatim>\<open>switch\<close> of the package has a \<^verbatim>\<open>default\<close> branch for the values that are
  none of the named ones. No arithmetic is done on a \<^verbatim>\<open>State\<close>, so the width of
  Go's \<^verbatim>\<open>int\<close> plays no role and the type is modelled by \<^typ>\<open>int\<close>.
\<close>

type_synonym State = int

abbreviation Unknown :: State where "Unknown \<equiv> 0"
abbreviation Running :: State where "Running \<equiv> 1"
abbreviation Success :: State where "Success \<equiv> 2"
abbreviation Failure :: State where "Failure \<equiv> 3"

text \<open>
  \<^verbatim>\<open>type Behavior interface { Reset(); Execute() State }\<close>. Both methods act on
  mutable state: the fields of the node itself, of its descendants, and whatever the
  closures of the leaves capture. An interface value is modelled by its two methods as
  transformers of a world \<open>'w\<close> that holds all state the node can reach. The methods
  are total: a child that panics or does not return is outside the model.
\<close>

record 'w Behavior =
  Reset :: "'w \<Rightarrow> 'w"
  Execute :: "'w \<Rightarrow> State \<times> 'w"

text \<open>\<^verbatim>\<open>type Action func() State\<close>: \<^verbatim>\<open>Reset\<close> is a noop, \<^verbatim>\<open>Execute\<close> calls the function.\<close>

definition Action :: "('w \<Rightarrow> State \<times> 'w) \<Rightarrow> 'w Behavior" where
  "Action a = \<lparr>Reset = (\<lambda>w. w), Execute = a\<rparr>"

text \<open>\<^verbatim>\<open>type Conditional func() bool\<close>: \<^verbatim>\<open>Success\<close> if the function returns true,
  \<^verbatim>\<open>Failure\<close> otherwise.\<close>

definition Conditional :: "('w \<Rightarrow> bool \<times> 'w) \<Rightarrow> 'w Behavior" where
  "Conditional c =
     \<lparr>Reset = (\<lambda>w. w),
      Execute = (\<lambda>w. case c w of (b, w') \<Rightarrow> (if b then Success else Failure, w'))\<rparr>"

section \<open>Serial composites\<close>

text \<open>
  \<^verbatim>\<open>type composite struct { nodes []Behavior; index int }\<close>. The struct is passed
  and returned explicitly; the world \<open>'w\<close> is the state of the children, which a
  composite owns exclusively, so no child reaches the fields of its parent. The field
  \<^verbatim>\<open>index\<close> is only ever set to \<open>0\<close> and incremented under the guard
  \<^verbatim>\<open>s.index < len(s.nodes)\<close>, so it is a natural number that cannot overflow.
\<close>

record 'w composite =
  nodes :: "'w Behavior list"
  index :: nat

text \<open>\<^verbatim>\<open>c.index = 0; for _, n := range c.nodes { n.Reset() }\<close>\<close>

definition composite_Reset :: "'w composite \<Rightarrow> 'w \<Rightarrow> 'w composite \<times> 'w" where
  "composite_Reset c w = (c\<lparr>index := 0\<rparr>, fold Reset (nodes c) w)"

text \<open>\<^verbatim>\<open>return &sequence{composite{nodes: bs}}\<close>: the index has its zero value.\<close>

definition Sequence :: "'w Behavior list \<Rightarrow> 'w composite" where
  "Sequence bs = \<lparr>nodes = bs, index = 0\<rparr>"

text \<open>
  \<^verbatim>\<open>for ; s.index < len(s.nodes); s.index++ { switch s.nodes[s.index].Execute() {...} }\<close>:
  \<^verbatim>\<open>continue\<close> runs the post statement \<^verbatim>\<open>s.index++\<close>, a \<^verbatim>\<open>return\<close> does not.
\<close>

function sequence_Execute :: "'w composite \<Rightarrow> 'w \<Rightarrow> State \<times> 'w composite \<times> 'w" where
  "sequence_Execute s w =
     (if index s < length (nodes s) then
        (case Execute (nodes s ! index s) w of (r, w') \<Rightarrow>
           if r = Running then (Running, s, w')
           else if r = Success then sequence_Execute (s\<lparr>index := index s + 1\<rparr>) w'
           else if r = Failure then (Failure, s, w')
           else (Unknown, s, w'))
      else (Success, s, w))"
  by pat_completeness auto
termination
  by (relation "measure (\<lambda>(s, w). length (nodes s) - index s)") auto

definition Selection :: "'w Behavior list \<Rightarrow> 'w composite" where
  "Selection bs = \<lparr>nodes = bs, index = 0\<rparr>"

function selection_Execute :: "'w composite \<Rightarrow> 'w \<Rightarrow> State \<times> 'w composite \<times> 'w" where
  "selection_Execute s w =
     (if index s < length (nodes s) then
        (case Execute (nodes s ! index s) w of (r, w') \<Rightarrow>
           if r = Running then (Running, s, w')
           else if r = Success then (Success, s, w')
           else if r = Failure then selection_Execute (s\<lparr>index := index s + 1\<rparr>) w'
           else (Unknown, s, w'))
      else (Failure, s, w))"
  by pat_completeness auto
termination
  by (relation "measure (\<lambda>(s, w). length (nodes s) - index s)") auto

declare sequence_Execute.simps [simp del]
declare selection_Execute.simps [simp del]

subsection \<open>What a tick of a serial composite does, in the words of the specification\<close>

text \<open>
  Executing the listed children once each, in order, whatever they return, leaves the
  world \<open>run_children\<close>. The world in which the child at index \<open>j\<close> is executed by a
  tick that starts at the cursor \<open>index s\<close> in the world \<open>w\<close> is \<open>world_before s j w\<close>:
  the children from the cursor up to \<open>j\<close> (excluded) have run before it.
\<close>

definition run_children :: "'w Behavior list \<Rightarrow> 'w \<Rightarrow> 'w" where
  "run_children ns w = fold (\<lambda>n v. snd (Execute n v)) ns w"

definition world_before :: "'w composite \<Rightarrow> nat \<Rightarrow> 'w \<Rightarrow> 'w" where
  "world_before s j w = run_children (take (j - index s) (drop (index s) (nodes s))) w"

text \<open>
  Selection in the words of the specification: Sequence with the roles of \<^verbatim>\<open>Success\<close>
  and \<^verbatim>\<open>Failure\<close> swapped. \<open>swap_result\<close> swaps the two results and leaves every other
  value alone; \<open>dual b\<close> is the node \<open>b\<close> with the result of its \<^verbatim>\<open>Execute\<close> swapped.
\<close>

definition swap_result :: "State \<Rightarrow> State" where
  "swap_result r = (if r = Success then Failure else if r = Failure then Success else r)"

definition dual :: "'w Behavior \<Rightarrow> 'w Behavior" where
  "dual b = b\<lparr>Execute := (\<lambda>w. case Execute b w of (r, w') \<Rightarrow> (swap_result r, w'))\<rparr>"

section \<open>Parallel composites\<close>

text \<open>
  \<^verbatim>\<open>type pcomposite struct { nodes []Behavior; complete map[int]bool }\<close>. A Go map
  read at a missing key gives the zero value \<^verbatim>\<open>false\<close>; \<open>is_complete\<close> is the read
  \<^verbatim>\<open>s.complete[i]\<close>. The keys are the indices of \<^verbatim>\<open>range s.nodes\<close>, which are never
  negative.
\<close>

record 'w pcomposite =
  nodes :: "'w Behavior list"
  complete :: "nat \<rightharpoonup> bool"

definition is_complete :: "(nat \<rightharpoonup> bool) \<Rightarrow> nat \<Rightarrow> bool" where
  "is_complete m i = (case m i of None \<Rightarrow> False | Some b \<Rightarrow> b)"

text \<open>\<^verbatim>\<open>c.complete = make(map[int]bool); for _, n := range c.nodes { n.Reset() }\<close>\<close>

definition pcomposite_Reset :: "'w pcomposite \<Rightarrow> 'w \<Rightarrow> 'w pcomposite \<times> 'w" where
  "pcomposite_Reset c w = (c\<lparr>complete := Map.empty\<rparr>, fold Reset (nodes c) w)"

definition PSequence :: "'w Behavior list \<Rightarrow> 'w pcomposite" where
  "PSequence bs = \<lparr>nodes = bs, complete = Map.empty\<rparr>"

text \<open>
  The loop \<^verbatim>\<open>for i, n := range s.nodes { ... }\<close> of \<^verbatim>\<open>psequence.Execute\<close>, from the
  child with index \<open>i\<close> on: the list is the rest of \<^verbatim>\<open>s.nodes\<close>, \<open>m\<close> is
  \<^verbatim>\<open>s.complete\<close> and \<open>running\<close> the local variable. The cases of the \<^verbatim>\<open>switch\<close> keep
  their order: \<^verbatim>\<open>Success\<close>, \<^verbatim>\<open>Running\<close>, \<^verbatim>\<open>Failure\<close>, \<^verbatim>\<open>default\<close>.
\<close>

fun psequence_range ::
  "'w Behavior list \<Rightarrow> nat \<Rightarrow> (nat \<rightharpoonup> bool) \<Rightarrow> bool \<Rightarrow> 'w \<Rightarrow> State \<times> (nat \<rightharpoonup> bool) \<times> 'w" where
  "psequence_range [] i m running w = (if running then Running else Success, m, w)"
| "psequence_range (n # ns) i m running w =
     (if is_complete m i then psequence_range ns (i + 1) m running w
      else (case Execute n w of (r, w') \<Rightarrow>
        if r = Success then psequence_range ns (i + 1) (m(i \<mapsto> True)) running w'
        else if r = Running then psequence_range ns (i + 1) m True w'
        else if r = Failure then (Failure, m, w')
        else (Unknown, m, w')))"

definition psequence_Execute :: "'w pcomposite \<Rightarrow> 'w \<Rightarrow> State \<times> 'w pcomposite \<times> 'w" where
  "psequence_Execute s w =
     (case psequence_range (nodes s) 0 (complete s) False w of
        (r, m, w') \<Rightarrow> (r, s\<lparr>complete := m\<rparr>, w'))"

definition PSelection :: "'w Behavior list \<Rightarrow> 'w pcomposite" where
  "PSelection bs = \<lparr>nodes = bs, complete = Map.empty\<rparr>"

text \<open>The loop of \<^verbatim>\<open>pselection.Execute\<close>; its cases are \<^verbatim>\<open>Failure\<close>, \<^verbatim>\<open>Running\<close>,
  \<^verbatim>\<open>Success\<close>, \<^verbatim>\<open>default\<close>.\<close>

fun pselection_range ::
  "'w Behavior list \<Rightarrow> nat \<Rightarrow> (nat \<rightharpoonup> bool) \<Rightarrow> bool \<Rightarrow> 'w \<Rightarrow> State \<times> (nat \<rightharpoonup> bool) \<times> 'w" where
  "pselection_range [] i m running w = (if running then Running else Failure, m, w)"
| "pselection_range (n # ns) i m running w =
     (if is_complete m i then pselection_range ns (i + 1) m running w
      else (case Execute n w of (r, w') \<Rightarrow>
        if r = Failure then pselection_range ns (i + 1) (m(i \<mapsto> True)) running w'
        else if r = Running then pselection_range ns (i + 1) m True w'
        else if r = Success then (Success, m, w')
        else (Unknown, m, w')))"

definition pselection_Execute :: "'w pcomposite \<Rightarrow> 'w \<Rightarrow> State \<times> 'w pcomposite \<times> 'w" where
  "pselection_Execute s w =
     (case pselection_range (nodes s) 0 (complete s) False w of
        (r, m, w') \<Rightarrow> (r, s\<lparr>complete := m\<rparr>, w'))"

subsection \<open>What a tick of a parallel composite does, in the words of the specification\<close>

text \<open>
  The children that are not in the completed-set, in index order, are \<open>pending\<close>. A
  \<open>pass\<close> executes the listed children once each, in the order of the list, and stops
  after the first result that is neither the marking result \<open>mk\<close> (\<^verbatim>\<open>Success\<close> for
  PSequence, \<^verbatim>\<open>Failure\<close> for PSelection) nor \<^verbatim>\<open>Running\<close>. It returns the log of the
  calls made, each with the index of the child and what the child returned, and the
  world the calls leave. \<open>marked\<close> adds the children of the log that returned \<open>mk\<close> to
  the completed-set; \<open>aborted\<close> says that the last call of the log stopped the pass;
  \<open>verdict\<close> is the result of the tick as the specification gives it.
\<close>

definition pending :: "'w pcomposite \<Rightarrow> nat list" where
  "pending s = filter (\<lambda>i. \<not> is_complete (complete s) i) [0..<length (nodes s)]"

fun pass :: "State \<Rightarrow> 'w Behavior list \<Rightarrow> nat list \<Rightarrow> 'w \<Rightarrow> (nat \<times> State) list \<times> 'w" where
  "pass mk ns [] w = ([], w)"
| "pass mk ns (i # js) w =
     (case Execute (ns ! i) w of (r, w') \<Rightarrow>
        if r = mk \<or> r = Running then
          (case pass mk ns js w' of (evs, w'') \<Rightarrow> ((i, r) # evs, w''))
        else ([(i, r)], w'))"

definition marked :: "State \<Rightarrow> (nat \<rightharpoonup> bool) \<Rightarrow> (nat \<times> State) list \<Rightarrow> (nat \<rightharpoonup> bool)" where
  "marked mk m evs = fold (\<lambda>(i, r) m'. if r = mk then m'(i \<mapsto> True) else m') evs m"

definition aborted :: "State \<Rightarrow> (nat \<times> State) list \<Rightarrow> bool" where
  "aborted mk evs = (evs \<noteq> [] \<and> snd (last evs) \<noteq> mk \<and> snd (last evs) \<noteq> Running)"

definition verdict :: "State \<Rightarrow> State \<Rightarrow> (nat \<times> State) list \<Rightarrow> State" where
  "verdict mk other evs =
     (if aborted mk evs then (if snd (last evs) = other then other else Unknown)
      else if Running \<in> snd ` set evs then Running
      else mk)"

section \<open>Decorators\<close>

text \<open>
  \<^verbatim>\<open>type decorator struct { node Behavior; transform func(State) State }\<close>. The
  closures of \<^verbatim>\<open>Repeat\<close>, \<^verbatim>\<open>Until\<close> and \<^verbatim>\<open>While\<close> call \<^verbatim>\<open>b.Reset()\<close>, so a transform
  acts on the world as well. A decorator has no mutable field of its own.
\<close>

record 'w decorator =
  node :: "'w Behavior"
  transform :: "State \<Rightarrow> 'w \<Rightarrow> State \<times> 'w"

definition decorator_Reset :: "'w decorator \<Rightarrow> 'w \<Rightarrow> 'w" where
  "decorator_Reset d w = Reset (node d) w"

text \<open>\<^verbatim>\<open>return d.transform(d.node.Execute())\<close>\<close>

definition decorator_Execute :: "'w decorator \<Rightarrow> 'w \<Rightarrow> State \<times> 'w" where
  "decorator_Execute d w = (case Execute (node d) w of (s, w') \<Rightarrow> transform d s w')"

text \<open>The pointer \<^verbatim>\<open>&decorator{...}\<close> as a value of the interface.\<close>

definition decorator_Behavior :: "'w decorator \<Rightarrow> 'w Behavior" where
  "decorator_Behavior d = \<lparr>Reset = decorator_Reset d, Execute = decorator_Execute d\<rparr>"

definition invert :: "State \<Rightarrow> 'w \<Rightarrow> State \<times> 'w" where
  "invert s w =
     (if s = Running then (Running, w)
      else if s = Success then (Failure, w)
      else if s = Failure then (Success, w)
      else (Unknown, w))"

definition Invert :: "'w Behavior \<Rightarrow> 'w decorator" where
  "Invert b = \<lparr>node = b, transform = invert\<rparr>"

definition repeat :: "'w Behavior \<Rightarrow> State \<Rightarrow> 'w \<Rightarrow> State \<times> 'w" where
  "repeat b s w =
     (if s = Success \<or> s = Failure then (Running, Reset b w)
      else if s = Running then (Running, w)
      else (Unknown, w))"

definition Repeat :: "'w Behavior \<Rightarrow> 'w decorator" where
  "Repeat b = \<lparr>node = b, transform = repeat b\<rparr>"

text \<open>The closure \<^verbatim>\<open>force\<close> of \<^verbatim>\<open>ForceSuccess\<close>.\<close>

definition force_success :: "State \<Rightarrow> 'w \<Rightarrow> State \<times> 'w" where
  "force_success s w =
     (if s = Success \<or> s = Failure then (Success, w)
      else if s = Running then (Running, w)
      else (Unknown, w))"

definition ForceSuccess :: "'w Behavior \<Rightarrow> 'w decorator" where
  "ForceSuccess b = \<lparr>node = b, transform = force_success\<rparr>"

text \<open>The closure \<^verbatim>\<open>force\<close> of \<^verbatim>\<open>ForceFailure\<close>.\<close>

definition force_failure :: "State \<Rightarrow> 'w \<Rightarrow> State \<times> 'w" where
  "force_failure s w =
     (if s = Success \<or> s = Failure then (Failure, w)
      else if s = Running then (Running, w)
      else (Unknown, w))"

definition ForceFailure :: "'w Behavior \<Rightarrow> 'w decorator" where
  "ForceFailure b = \<lparr>node = b, transform = force_failure\<rparr>"

definition until :: "'w Behavior \<Rightarrow> State \<Rightarrow> 'w \<Rightarrow> State \<times> 'w" where
  "until b s w =
     (if s = Success then (Success, w)
      else if s = Failure then (Running, Reset b w)
      else if s = Running then (Running, w)
      else (Unknown, w))"

definition Until :: "'w Behavior \<Rightarrow> 'w decorator" where
  "Until b = \<lparr>node = b, transform = until b\<rparr>"

text \<open>The closure \<^verbatim>\<open>while\<close> of \<^verbatim>\<open>While\<close>.\<close>

definition while_transform :: "'w Behavior \<Rightarrow> State \<Rightarrow> 'w \<Rightarrow> State \<times> 'w" where
  "while_transform b s w =
     (if s = Failure then (Failure, w)
      else if s = Success then (Running, Reset b w)
      else if s = Running then (Running, w)
      else (Unknown, w))"

definition While :: "'w Behavior \<Rightarrow> 'w decorator" where
  "While b = \<lparr>node = b, transform = while_transform b\<rparr>"

subsection \<open>What a tick of a decorator does, in the words of the specification\<close>

text \<open>
  A row of the table of transforms: \<^verbatim>\<open>Running\<close> stays \<^verbatim>\<open>Running\<close>, \<^verbatim>\<open>Success\<close> and
  \<^verbatim>\<open>Failure\<close> become what the row says, and every other value becomes \<^verbatim>\<open>Unknown\<close>.
  \<open>tick_child R b\<close> executes the child \<open>b\<close> exactly once and then resets it if its
  result is one of \<open>R\<close>.
\<close>

definition table :: "State \<Rightarrow> State \<Rightarrow> State \<Rightarrow> State" where
  "table on_success on_failure s =
     (if s = Running then Running
      else if s = Success then on_success
      else if s = Failure then on_failure
      else Unknown)"

definition tick_child :: "State set \<Rightarrow> 'w Behavior \<Rightarrow> 'w \<Rightarrow> State \<times> 'w" where
  "tick_child R b w =
     (case Execute b w of (s, w1) \<Rightarrow> (s, if s \<in> R then Reset b w1 else w1))"

section \<open>The helpers of the package's tests\<close>

text \<open>
  The closures of the tests capture integer variables. A \<open>store\<close> gives every such
  variable an address; the counters only count up from \<open>0\<close>.

  \<^verbatim>\<open>Recorded(states...)\<close> returns an \<^verbatim>\<open>Action\<close> that yields \<^verbatim>\<open>states[i%len(states)]\<close>
  and increments its captured \<^verbatim>\<open>i\<close>, kept here at the address \<open>a\<close>. With no states the
  Go function panics at its first call (a division by zero); the model is used with
  scripts that are not empty.
\<close>

type_synonym store = "nat \<Rightarrow> nat"

definition Recorded :: "nat \<Rightarrow> State list \<Rightarrow> store Behavior" where
  "Recorded a states = Action (\<lambda>h. (states ! (h a mod length states), h(a := h a + 1)))"

text \<open>
  \<^verbatim>\<open>type testBehavior struct { base Behavior; calls int; resets int }\<close>, with its
  counters at the addresses \<open>c\<close> and \<open>r\<close>. \<^verbatim>\<open>Execute\<close> is
  \<^verbatim>\<open>b.calls++; return b.base.Execute()\<close> and \<^verbatim>\<open>Reset\<close> is
  \<^verbatim>\<open>b.base.Reset(); b.resets++\<close>.
\<close>

definition testBehavior :: "nat \<Rightarrow> nat \<Rightarrow> store Behavior \<Rightarrow> store Behavior" where
  "testBehavior c r base =
     \<lparr>Reset = (\<lambda>h. let h' = Reset base h in h'(r := h' r + 1)),
      Execute = (\<lambda>h. Execute base (h(c := h c + 1)))\<rparr>"

text \<open>
  The loop of \<^verbatim>\<open>CheckBehavior\<close>, \<^verbatim>\<open>for i := 0; i < len(expected); i++ { actual[i] =
  b.Execute() }\<close>: \<open>n\<close> calls of the method \<open>ex\<close> in a row, on the state \<open>x\<close> the method
  acts on, collecting the results.
\<close>

fun ticks :: "('x \<Rightarrow> State \<times> 'x) \<Rightarrow> nat \<Rightarrow> 'x \<Rightarrow> State list \<times> 'x" where
  "ticks ex 0 x = ([], x)"
| "ticks ex (Suc n) x =
     (case ex x of (r, x1) \<Rightarrow> case ticks ex n x1 of (rs, x2) \<Rightarrow> (r # rs, x2))"

text \<open>
  Any interleaving of calls of \<^verbatim>\<open>Execute\<close> and \<^verbatim>\<open>Reset\<close> on a serial composite, whose
  \<^verbatim>\<open>Execute\<close> is \<open>ex\<close>.
\<close>

datatype call = CallExecute | CallReset

fun apply_call ::
  "('w composite \<Rightarrow> 'w \<Rightarrow> State \<times> 'w composite \<times> 'w) \<Rightarrow> call \<Rightarrow> 'w composite \<times> 'w \<Rightarrow> 'w composite \<times> 'w" where
  "apply_call ex CallExecute (c, w) = snd (ex c w)"
| "apply_call ex CallReset (c, w) = composite_Reset c w"

definition interleaving ::
  "('w composite \<Rightarrow> 'w \<Rightarrow> State \<times> 'w composite \<times> 'w) \<Rightarrow> call list \<Rightarrow> 'w composite \<times> 'w \<Rightarrow> 'w composite \<times> 'w" where
  "interleaving ex calls cw = fold (apply_call ex) calls cw"

section \<open>Theorems\<close>

lemma world_before_start: "world_before s (index s) w = w"
  by (simp add: world_before_def run_children_def)

lemma world_before_step:
  assumes "index s < length (composite.nodes s)" and "index s < j"
  shows "world_before s j w =
         world_before (s\<lparr>index := index s + 1\<rparr>) j (snd (Execute (composite.nodes s ! index s) w))"
proof -
  obtain k where k: "j - index s = Suc k" "j - (index s + 1) = k"
    using assms(2) by (cases "j - index s") auto
  have "drop (index s) (composite.nodes s) = composite.nodes s ! index s # drop (Suc (index s)) (composite.nodes s)"
    using assms(1) by (simp add: Cons_nth_drop_Suc)
  then show ?thesis
    using k by (simp add: world_before_def run_children_def)
qed

subsection \<open>Helper lemmas on the serial composites\<close>

lemma sequence_run:
  "sequence_Execute s w = (r, s', w') \<Longrightarrow>
     composite.nodes s' = composite.nodes s \<and> index s \<le> index s' \<and>
     (\<forall>j. index s \<le> j \<and> j < index s' \<longrightarrow>
          fst (Execute (composite.nodes s ! j) (world_before s j w)) = Success) \<and>
     (if index s' < length (composite.nodes s) then
        (case Execute (composite.nodes s ! index s') (world_before s (index s') w) of (rc, wc) \<Rightarrow>
           rc \<noteq> Success \<and> w' = wc \<and>
           r = (if rc = Running then Running else if rc = Failure then Failure else Unknown))
      else r = Success \<and> w' = world_before s (index s') w \<and>
           index s' = max (index s) (length (composite.nodes s)))"
proof (induction s w arbitrary: r s' w' rule: sequence_Execute.induct)
  case (1 s w)
  show ?case
  proof (cases "index s < length (composite.nodes s)")
    case False
    with "1.prems" show ?thesis
      by (simp add: sequence_Execute.simps [of s w] world_before_start)
  next
    case True
    obtain rc w1 where ex: "Execute (composite.nodes s ! index s) w = (rc, w1)"
      by (cases "Execute (composite.nodes s ! index s) w")
    show ?thesis
    proof (cases "rc = Success")
      case False
      with "1.prems" True ex show ?thesis
        by (auto simp: sequence_Execute.simps [of s w] world_before_start split: if_splits)
    next
      case rcS: True
      let ?s1 = "s\<lparr>index := index s + 1\<rparr>"
      from "1.prems" True ex rcS have run: "sequence_Execute ?s1 w1 = (r, s', w')"
        by (simp add: sequence_Execute.simps [of s w])
      from rcS have nR: "rc \<noteq> Running" by simp
      note IH = "1.IH" [OF True ex [symmetric] nR rcS run]
      have wb: "\<And>j. index s < j \<Longrightarrow> world_before s j w = world_before ?s1 j w1"
        using world_before_step [OF True, of _ w] ex by simp
      have le: "index s < index s'" using IH by simp
      have first: "fst (Execute (composite.nodes s ! index s) (world_before s (index s) w)) = Success"
        using ex rcS by (simp add: world_before_start)
      have pre: "\<forall>j. index s \<le> j \<and> j < index s' \<longrightarrow>
          fst (Execute (composite.nodes s ! j) (world_before s j w)) = Success"
      proof (intro allI impI)
        fix j assume j: "index s \<le> j \<and> j < index s'"
        show "fst (Execute (composite.nodes s ! j) (world_before s j w)) = Success"
        proof (cases "j = index s")
          case True
          with first show ?thesis by simp
        next
          case False
          with j have "index s < j" by simp
          with IH j wb show ?thesis by simp
        qed
      qed
      from IH le wb pre True show ?thesis
        by (auto split: if_splits)
    qed
  qed
qed

lemma sequence_fields:
  "sequence_Execute s w = (r, s', w') \<Longrightarrow> \<exists>k. s' = s\<lparr>index := k\<rparr>"
proof (induction s w arbitrary: r s' w' rule: sequence_Execute.induct)
  case (1 s w)
  show ?case
  proof (cases "index s < length (composite.nodes s)")
    case False
    with "1.prems" have "s' = s\<lparr>index := index s\<rparr>"
      by (simp add: sequence_Execute.simps [of s w])
    then show ?thesis ..
  next
    case True
    obtain rc w1 where ex: "Execute (composite.nodes s ! index s) w = (rc, w1)"
      by (cases "Execute (composite.nodes s ! index s) w")
    show ?thesis
    proof (cases "rc = Success")
      case False
      with "1.prems" True ex have "s' = s\<lparr>index := index s\<rparr>"
        by (auto simp: sequence_Execute.simps [of s w] split: if_splits)
      then show ?thesis ..
    next
      case rcS: True
      from "1.prems" True ex rcS
      have run: "sequence_Execute (s\<lparr>index := index s + 1\<rparr>) w1 = (r, s', w')"
        by (simp add: sequence_Execute.simps [of s w])
      from rcS have nR: "rc \<noteq> Running" by simp
      from "1.IH" [OF True ex [symmetric] nR rcS run]
      obtain k where "s' = s\<lparr>index := index s + 1, index := k\<rparr>" by blast
      then have "s' = s\<lparr>index := k\<rparr>" by simp
      then show ?thesis ..
    qed
  qed
qed

lemma selection_run:
  "selection_Execute s w = (r, s', w') \<Longrightarrow>
     composite.nodes s' = composite.nodes s \<and> index s \<le> index s' \<and>
     (\<forall>j. index s \<le> j \<and> j < index s' \<longrightarrow>
          fst (Execute (composite.nodes s ! j) (world_before s j w)) = Failure) \<and>
     (if index s' < length (composite.nodes s) then
        (case Execute (composite.nodes s ! index s') (world_before s (index s') w) of (rc, wc) \<Rightarrow>
           rc \<noteq> Failure \<and> w' = wc \<and>
           r = (if rc = Running then Running else if rc = Success then Success else Unknown))
      else r = Failure \<and> w' = world_before s (index s') w \<and>
           index s' = max (index s) (length (composite.nodes s)))"
proof (induction s w arbitrary: r s' w' rule: selection_Execute.induct)
  case (1 s w)
  show ?case
  proof (cases "index s < length (composite.nodes s)")
    case False
    with "1.prems" show ?thesis
      by (simp add: selection_Execute.simps [of s w] world_before_start)
  next
    case True
    obtain rc w1 where ex: "Execute (composite.nodes s ! index s) w = (rc, w1)"
      by (cases "Execute (composite.nodes s ! index s) w")
    show ?thesis
    proof (cases "rc = Failure")
      case False
      with "1.prems" True ex show ?thesis
        by (auto simp: selection_Execute.simps [of s w] world_before_start split: if_splits)
    next
      case rcF: True
      let ?s1 = "s\<lparr>index := index s + 1\<rparr>"
      from "1.prems" True ex rcF have run: "selection_Execute ?s1 w1 = (r, s', w')"
        by (simp add: selection_Execute.simps [of s w])
      from rcF have nR: "rc \<noteq> Running" and nS: "rc \<noteq> Success" by simp_all
      note IH = "1.IH" [OF True ex [symmetric] nR nS rcF run]
      have wb: "\<And>j. index s < j \<Longrightarrow> world_before s j w = world_before ?s1 j w1"
        using world_before_step [OF True, of _ w] ex by simp
      have le: "index s < index s'" using IH by simp
      have first: "fst (Execute (composite.nodes s ! index s) (world_before s (index s) w)) = Failure"
        using ex rcF by (simp add: world_before_start)
      have pre: "\<forall>j. index s \<le> j \<and> j < index s' \<longrightarrow>
          fst (Execute (composite.nodes s ! j) (world_before s j w)) = Failure"
      proof (intro allI impI)
        fix j assume j: "index s \<le> j \<and> j < index s'"
        show "fst (Execute (composite.nodes s ! j) (world_before s j w)) = Failure"
        proof (cases "j = index s")
          case True
          with first show ?thesis by simp
        next
          case False
          with j have "index s < j" by simp
          with IH j wb show ?thesis by simp
        qed
      qed
      from IH le wb pre True show ?thesis
        by (auto split: if_splits)
    qed
  qed
qed

lemma selection_fields:
  "selection_Execute s w = (r, s', w') \<Longrightarrow> \<exists>k. s' = s\<lparr>index := k\<rparr>"
proof (induction s w arbitrary: r s' w' rule: selection_Execute.induct)
  case (1 s w)
  show ?case
  proof (cases "index s < length (composite.nodes s)")
    case False
    with "1.prems" have "s' = s\<lparr>index := index s\<rparr>"
      by (simp add: selection_Execute.simps [of s w])
    then show ?thesis ..
  next
    case True
    obtain rc w1 where ex: "Execute (composite.nodes s ! index s) w = (rc, w1)"
      by (cases "Execute (composite.nodes s ! index s) w")
    show ?thesis
    proof (cases "rc = Failure")
      case False
      with "1.prems" True ex have "s' = s\<lparr>index := index s\<rparr>"
        by (auto simp: selection_Execute.simps [of s w] split: if_splits)
      then show ?thesis ..
    next
      case rcF: True
      from "1.prems" True ex rcF
      have run: "selection_Execute (s\<lparr>index := index s + 1\<rparr>) w1 = (r, s', w')"
        by (simp add: selection_Execute.simps [of s w])
      from rcF have nR: "rc \<noteq> Running" and nS: "rc \<noteq> Success" by simp_all
      from "1.IH" [OF True ex [symmetric] nR nS rcF run]
      obtain k where "s' = s\<lparr>index := index s + 1, index := k\<rparr>" by blast
      then have "s' = s\<lparr>index := k\<rparr>" by simp
      then show ?thesis ..
    qed
  qed
qed

lemma selection_dual_sequence:
  "selection_Execute s w = (r, s', w') \<Longrightarrow>
   sequence_Execute (s\<lparr>composite.nodes := map dual (composite.nodes s)\<rparr>) w =
     (swap_result r, s'\<lparr>composite.nodes := map dual (composite.nodes s)\<rparr>, w')"
proof (induction s w arbitrary: r s' w' rule: selection_Execute.induct)
  case (1 s w)
  let ?d = "s\<lparr>composite.nodes := map dual (composite.nodes s)\<rparr>"
  show ?case
  proof (cases "index s < length (composite.nodes s)")
    case False
    then have "sequence_Execute ?d w = (Success, ?d, w)"
      by (simp add: sequence_Execute.simps [of ?d w])
    moreover from False "1.prems" have "r = Failure \<and> s' = s \<and> w' = w"
      by (simp add: selection_Execute.simps [of s w])
    ultimately show ?thesis
      by (simp add: swap_result_def)
  next
    case True
    obtain rc w1 where ex: "Execute (composite.nodes s ! index s) w = (rc, w1)"
      by (cases "Execute (composite.nodes s ! index s) w")
    from True ex have exd: "Execute (composite.nodes ?d ! index ?d) w = (swap_result rc, w1)"
      by (simp add: dual_def)
    show ?thesis
    proof (cases "rc = Failure")
      case False
      with True exd have "sequence_Execute ?d w =
          (if rc = Running then Running else if rc = Success then Failure else Unknown, ?d, w1)"
        by (simp add: sequence_Execute.simps [of ?d w] swap_result_def)
      moreover from False True ex "1.prems" have
        "r = (if rc = Running then Running else if rc = Success then Success else Unknown)
           \<and> s' = s \<and> w' = w1"
        by (auto simp: selection_Execute.simps [of s w] split: if_splits)
      ultimately show ?thesis
        by (simp add: swap_result_def)
    next
      case rcF: True
      let ?s1 = "s\<lparr>index := index s + 1\<rparr>"
      from "1.prems" True ex rcF have run: "selection_Execute ?s1 w1 = (r, s', w')"
        by (simp add: selection_Execute.simps [of s w])
      from rcF have nR: "rc \<noteq> Running" and nS: "rc \<noteq> Success" by simp_all
      note IH = "1.IH" [OF True ex [symmetric] nR nS rcF run]
      from True exd rcF have e1: "sequence_Execute ?d w =
          sequence_Execute (?d\<lparr>index := index ?d + 1\<rparr>) w1"
        by (simp add: sequence_Execute.simps [of ?d w] swap_result_def)
      have e2: "?d\<lparr>index := index ?d + 1\<rparr> =
          ?s1\<lparr>composite.nodes := map dual (composite.nodes s)\<rparr>"
        by simp
      from IH have IH': "sequence_Execute (?s1\<lparr>composite.nodes := map dual (composite.nodes s)\<rparr>) w1
          = (swap_result r, s'\<lparr>composite.nodes := map dual (composite.nodes s)\<rparr>, w')"
        by simp
      show ?thesis
        by (simp only: e1 e2 IH')
    qed
  qed
qed

lemma sequence_bound:
  assumes "sequence_Execute s w = (r, s', w')" and "index s \<le> length (composite.nodes s)"
  shows "index s' \<le> length (composite.nodes s') \<and> composite.nodes s' = composite.nodes s"
  using sequence_run [OF assms(1)] assms(2) by (auto split: if_splits)

lemma selection_bound:
  assumes "selection_Execute s w = (r, s', w')" and "index s \<le> length (composite.nodes s)"
  shows "index s' \<le> length (composite.nodes s') \<and> composite.nodes s' = composite.nodes s"
  using selection_run [OF assms(1)] assms(2) by (auto split: if_splits)





lemma interleaving_invariant:
  assumes ex: "\<And>s w r s' w'. ex s w = (r, s', w') \<Longrightarrow> index s \<le> length (composite.nodes s) \<Longrightarrow>
      index s' \<le> length (composite.nodes s') \<and> composite.nodes s' = composite.nodes s"
    and "index c \<le> length (composite.nodes c)"
  shows "index (fst (interleaving ex calls (c, w))) \<le> length (composite.nodes c) \<and>
         composite.nodes (fst (interleaving ex calls (c, w))) = composite.nodes c"
  using assms(2)
proof (induction calls arbitrary: c w)
  case Nil
  then show ?case by (simp add: interleaving_def)
next
  case (Cons a calls)
  obtain c1 w1 where step: "apply_call ex a (c, w) = (c1, w1)"
    by (cases "apply_call ex a (c, w)")
  have inv: "index c1 \<le> length (composite.nodes c1) \<and> composite.nodes c1 = composite.nodes c"
  proof (cases a)
    case CallExecute
    obtain r where "ex c w = (r, c1, w1)"
      using step CallExecute by (cases "ex c w") simp
    from ex [OF this Cons.prems] show ?thesis .
  next
    case CallReset
    with step show ?thesis by (auto simp: composite_Reset_def)
  qed
  have "interleaving ex (a # calls) (c, w) = interleaving ex calls (c1, w1)"
    by (simp add: interleaving_def step)
  moreover from inv have p: "index c1 \<le> length (composite.nodes c1)"
    by (rule conjunct1)
  moreover from inv have e: "composite.nodes c1 = composite.nodes c"
    by (rule conjunct2)
  moreover note Cons.IH [OF p, of w1]
  ultimately show ?case
    by simp
qed

subsection \<open>Helper lemmas on the parallel composites\<close>

lemma is_complete_upd: "j \<noteq> i \<Longrightarrow> is_complete (m(i \<mapsto> True)) j = is_complete m j"
  by (simp add: is_complete_def)

lemma filter_pending_upd:
  "filter (\<lambda>j. \<not> is_complete (m(i \<mapsto> True)) j) [Suc i..<k] =
   filter (\<lambda>j. \<not> is_complete m j) [Suc i..<k]"
  by (rule filter_cong) (auto simp: is_complete_upd)

lemma marked_Cons:
  "marked mk m ((i, r) # evs) = marked mk (if r = mk then m(i \<mapsto> True) else m) evs"
  by (simp add: marked_def)

lemma aborted_Cons:
  "r = mk \<or> r = Running \<Longrightarrow> aborted mk ((i, r) # evs) = aborted mk evs"
  by (auto simp: aborted_def)

lemma last_Cons_aborted:
  "aborted mk evs \<Longrightarrow> last ((i, r) # evs) = last evs"
  by (auto simp: aborted_def)

lemma psequence_range_pass:
  "k = length pre + length ns \<Longrightarrow>
   psequence_range ns (length pre) m running w =
     (case pass Success (pre @ ns) (filter (\<lambda>j. \<not> is_complete m j) [length pre..<k]) w of
        (evs, w') \<Rightarrow>
          (if aborted Success evs then (if snd (last evs) = Failure then Failure else Unknown)
           else if running \<or> Running \<in> snd ` set evs then Running else Success,
           marked Success m evs, w'))"
proof (induction ns arbitrary: pre m running w)
  case Nil
  then show ?case
    by (simp add: aborted_def marked_def)
next
  case (Cons n ns)
  let ?i = "length pre"
  let ?P = "\<lambda>j. \<not> is_complete m j"
  let ?all = "pre @ n # ns"
  from Cons.prems have upt: "[?i..<k] = ?i # [Suc ?i..<k]"
    by (subst upt_rec) simp
  from Cons.prems have k: "k = length (pre @ [n]) + length ns"
    by simp
  have IH: "psequence_range ns (Suc ?i) m' running' w' =
     (case pass Success ?all (filter (\<lambda>j. \<not> is_complete m' j) [Suc ?i..<k]) w' of
        (evs, w'') \<Rightarrow>
          (if aborted Success evs then (if snd (last evs) = Failure then Failure else Unknown)
           else if running' \<or> Running \<in> snd ` set evs then Running else Success,
           marked Success m' evs, w''))" for m' running' w'
    using Cons.IH [OF k, of m' running' w'] by simp
  have nth: "?all ! ?i = n"
    by simp
  show ?case
  proof (cases "is_complete m ?i")
    case True
    then have "psequence_range (n # ns) ?i m running w = psequence_range ns (Suc ?i) m running w"
      by simp
    moreover from True have "filter ?P [?i..<k] = filter ?P [Suc ?i..<k]"
      unfolding upt by simp
    ultimately show ?thesis
      by (simp only: IH)
  next
    case False
    obtain r w1 where ex: "Execute n w = (r, w1)"
      by (cases "Execute n w")
    from False have fl: "filter ?P [?i..<k] = ?i # filter ?P [Suc ?i..<k]"
      unfolding upt by simp
    obtain evs w2 where p: "pass Success ?all (filter ?P [Suc ?i..<k]) w1 = (evs, w2)"
      by (cases "pass Success ?all (filter ?P [Suc ?i..<k]) w1")
    consider (S) "r = Success" | (R) "r = Running" | (O) "r \<noteq> Success" "r \<noteq> Running"
      by blast
    then show ?thesis
    proof cases
      case S
      from False ex S have step: "psequence_range (n # ns) ?i m running w =
          psequence_range ns (Suc ?i) (m(?i \<mapsto> True)) running w1"
        by simp
      from ex S p nth have ps: "pass Success ?all (?i # filter ?P [Suc ?i..<k]) w =
          ((?i, Success) # evs, w2)"
        by simp
      have l: "aborted Success evs \<Longrightarrow> last ((?i, Success) # evs) = last evs"
        by (rule last_Cons_aborted)
      have a: "aborted Success ((?i, Success) # evs) = aborted Success evs"
        by (rule aborted_Cons) simp
      have mk: "marked Success m ((?i, Success) # evs) = marked Success (m(?i \<mapsto> True)) evs"
        by (simp add: marked_Cons)
      show ?thesis
        unfolding step fl ps IH filter_pending_upd p
        using l by (simp add: a mk)
    next
      case R
      from False ex R have step: "psequence_range (n # ns) ?i m running w =
          psequence_range ns (Suc ?i) m True w1"
        by simp
      from ex R p nth have ps: "pass Success ?all (?i # filter ?P [Suc ?i..<k]) w =
          ((?i, Running) # evs, w2)"
        by simp
      have l: "aborted Success evs \<Longrightarrow> last ((?i, Running) # evs) = last evs"
        by (rule last_Cons_aborted)
      have a: "aborted Success ((?i, Running) # evs) = aborted Success evs"
        by (rule aborted_Cons) simp
      have mk: "marked Success m ((?i, Running) # evs) = marked Success m evs"
        by (simp add: marked_Cons)
      show ?thesis
        unfolding step fl ps IH p
        using l by (simp add: a mk)
    next
      case O
      from False ex O have step: "psequence_range (n # ns) ?i m running w =
          (if r = Failure then Failure else Unknown, m, w1)"
        by simp
      from ex O nth have ps: "pass Success ?all (?i # filter ?P [Suc ?i..<k]) w = ([(?i, r)], w1)"
        by simp
      from O show ?thesis
        unfolding step fl ps
        by (simp add: marked_def aborted_def)
    qed
  qed
qed

lemma pselection_range_pass:
  "k = length pre + length ns \<Longrightarrow>
   pselection_range ns (length pre) m running w =
     (case pass Failure (pre @ ns) (filter (\<lambda>j. \<not> is_complete m j) [length pre..<k]) w of
        (evs, w') \<Rightarrow>
          (if aborted Failure evs then (if snd (last evs) = Success then Success else Unknown)
           else if running \<or> Running \<in> snd ` set evs then Running else Failure,
           marked Failure m evs, w'))"
proof (induction ns arbitrary: pre m running w)
  case Nil
  then show ?case
    by (simp add: aborted_def marked_def)
next
  case (Cons n ns)
  let ?i = "length pre"
  let ?P = "\<lambda>j. \<not> is_complete m j"
  let ?all = "pre @ n # ns"
  from Cons.prems have upt: "[?i..<k] = ?i # [Suc ?i..<k]"
    by (subst upt_rec) simp
  from Cons.prems have k: "k = length (pre @ [n]) + length ns"
    by simp
  have IH: "pselection_range ns (Suc ?i) m' running' w' =
     (case pass Failure ?all (filter (\<lambda>j. \<not> is_complete m' j) [Suc ?i..<k]) w' of
        (evs, w'') \<Rightarrow>
          (if aborted Failure evs then (if snd (last evs) = Success then Success else Unknown)
           else if running' \<or> Running \<in> snd ` set evs then Running else Failure,
           marked Failure m' evs, w''))" for m' running' w'
    using Cons.IH [OF k, of m' running' w'] by simp
  have nth: "?all ! ?i = n"
    by simp
  show ?case
  proof (cases "is_complete m ?i")
    case True
    then have "pselection_range (n # ns) ?i m running w = pselection_range ns (Suc ?i) m running w"
      by simp
    moreover from True have "filter ?P [?i..<k] = filter ?P [Suc ?i..<k]"
      unfolding upt by simp
    ultimately show ?thesis
      by (simp only: IH)
  next
    case False
    obtain r w1 where ex: "Execute n w = (r, w1)"
      by (cases "Execute n w")
    from False have fl: "filter ?P [?i..<k] = ?i # filter ?P [Suc ?i..<k]"
      unfolding upt by simp
    obtain evs w2 where p: "pass Failure ?all (filter ?P [Suc ?i..<k]) w1 = (evs, w2)"
      by (cases "pass Failure ?all (filter ?P [Suc ?i..<k]) w1")
    consider (S) "r = Failure" | (R) "r = Running" | (O) "r \<noteq> Failure" "r \<noteq> Running"
      by blast
    then show ?thesis
    proof cases
      case S
      from False ex S have step: "pselection_range (n # ns) ?i m running w =
          pselection_range ns (Suc ?i) (m(?i \<mapsto> True)) running w1"
        by simp
      from ex S p nth have ps: "pass Failure ?all (?i # filter ?P [Suc ?i..<k]) w =
          ((?i, Failure) # evs, w2)"
        by simp
      have l: "aborted Failure evs \<Longrightarrow> last ((?i, Failure) # evs) = last evs"
        by (rule last_Cons_aborted)
      have a: "aborted Failure ((?i, Failure) # evs) = aborted Failure evs"
        by (rule aborted_Cons) simp
      have mk: "marked Failure m ((?i, Failure) # evs) = marked Failure (m(?i \<mapsto> True)) evs"
        by (simp add: marked_Cons)
      show ?thesis
        unfolding step fl ps IH filter_pending_upd p
        using l by (simp add: a mk)
    next
      case R
      from False ex R have step: "pselection_range (n # ns) ?i m running w =
          pselection_range ns (Suc ?i) m True w1"
        by simp
      from ex R p nth have ps: "pass Failure ?all (?i # filter ?P [Suc ?i..<k]) w =
          ((?i, Running) # evs, w2)"
        by simp
      have l: "aborted Failure evs \<Longrightarrow> last ((?i, Running) # evs) = last evs"
        by (rule last_Cons_aborted)
      have a: "aborted Failure ((?i, Running) # evs) = aborted Failure evs"
        by (rule aborted_Cons) simp
      have mk: "marked Failure m ((?i, Running) # evs) = marked Failure m evs"
        by (simp add: marked_Cons)
      show ?thesis
        unfolding step fl ps IH p
        using l by (simp add: a mk)
    next
      case O
      from False ex O have step: "pselection_range (n # ns) ?i m running w =
          (if r = Success then Success else Unknown, m, w1)"
        by simp
      from ex O nth have ps: "pass Failure ?all (?i # filter ?P [Suc ?i..<k]) w = ([(?i, r)], w1)"
        by simp
      from O show ?thesis
        unfolding step fl ps
        by (simp add: marked_def aborted_def)
    qed
  qed
qed


lemma psequence_Execute_pass:
  "psequence_Execute s w =
     (case pass Success (pcomposite.nodes s) (pending s) w of
        (evs, w') \<Rightarrow>
          (verdict Success Failure evs, s\<lparr>complete := marked Success (complete s) evs\<rparr>, w'))"
  using psequence_range_pass [of "length (pcomposite.nodes s)" "[]" "pcomposite.nodes s"
      "complete s" False w]
  by (simp add: psequence_Execute_def pending_def verdict_def split: prod.splits)

lemma pselection_Execute_pass:
  "pselection_Execute s w =
     (case pass Failure (pcomposite.nodes s) (pending s) w of
        (evs, w') \<Rightarrow>
          (verdict Failure Success evs, s\<lparr>complete := marked Failure (complete s) evs\<rparr>, w'))"
  using pselection_range_pass [of "length (pcomposite.nodes s)" "[]" "pcomposite.nodes s"
      "complete s" False w]
  by (simp add: pselection_Execute_def pending_def verdict_def split: prod.splits)

lemma pass_prefix: "prefix (map fst (fst (pass mk ns js w))) js"
proof (induction js arbitrary: w)
  case Nil
  show ?case by simp
next
  case (Cons i js)
  obtain r w1 where ex: "Execute (ns ! i) w = (r, w1)"
    by (cases "Execute (ns ! i) w")
  obtain evs w2 where p: "pass mk ns js w1 = (evs, w2)"
    by (cases "pass mk ns js w1")
  from Cons.IH [of w1] p have "prefix (map fst evs) js"
    by simp
  with ex p show ?case
    by simp
qed

lemma pass_all: "\<not> aborted mk (fst (pass mk ns js w)) \<Longrightarrow> map fst (fst (pass mk ns js w)) = js"
proof (induction js arbitrary: w)
  case Nil
  show ?case by simp
next
  case (Cons i js)
  obtain r w1 where ex: "Execute (ns ! i) w = (r, w1)"
    by (cases "Execute (ns ! i) w")
  show ?case
  proof (cases "r = mk \<or> r = Running")
    case True
    obtain evs w2 where p: "pass mk ns js w1 = (evs, w2)"
      by (cases "pass mk ns js w1")
    from True ex p Cons.prems have "\<not> aborted mk evs"
      by (simp add: aborted_Cons)
    with Cons.IH [of w1] p have "map fst evs = js"
      by simp
    with True ex p show ?thesis
      by simp
  next
    case False
    with ex Cons.prems show ?thesis
      by (simp add: aborted_def)
  qed
qed

lemma pass_results:
  "(i, r) \<in> set (fst (pass mk ns js w)) \<Longrightarrow>
   r = mk \<or> r = Running \<or> (i, r) = last (fst (pass mk ns js w))"
proof (induction js arbitrary: w)
  case Nil
  then show ?case by simp
next
  case (Cons j js)
  obtain rj w1 where ex: "Execute (ns ! j) w = (rj, w1)"
    by (cases "Execute (ns ! j) w")
  show ?case
  proof (cases "rj = mk \<or> rj = Running")
    case True
    obtain evs w2 where p: "pass mk ns js w1 = (evs, w2)"
      by (cases "pass mk ns js w1")
    from True ex p have e: "fst (pass mk ns (j # js) w) = (j, rj) # evs"
      by simp
    show ?thesis
    proof (cases "(i, r) = (j, rj)")
      case True
      with \<open>rj = mk \<or> rj = Running\<close> show ?thesis by blast
    next
      case False
      from Cons.prems have "(i, r) \<in> set ((j, rj) # evs)" unfolding e .
      with False have "(i, r) \<in> set evs" by auto
      with Cons.IH [of w1] p have "r = mk \<or> r = Running \<or> (i, r) = last evs" by simp
      moreover from \<open>(i, r) \<in> set evs\<close> have "evs \<noteq> []" by auto
      ultimately show ?thesis unfolding e by simp
    qed
  next
    case False
    with ex Cons.prems show ?thesis by simp
  qed
qed

lemma marked_is_complete:
  "is_complete (marked mk m evs) i = (is_complete m i \<or> (i, mk) \<in> set evs)"
proof (induction evs arbitrary: m)
  case Nil
  show ?case by (simp add: marked_def)
next
  case (Cons e evs)
  obtain j r where e: "e = (j, r)" by (cases e)
  show ?case
    unfolding e marked_Cons Cons.IH
    by (auto simp: is_complete_def)
qed

lemma pass_cong:
  "(\<And>j. j \<in> set js \<Longrightarrow> ns ! j = ns' ! j) \<Longrightarrow> pass mk ns js w = pass mk ns' js w"
  by (induction js arbitrary: w) (simp_all split: prod.splits)

lemma pending_sorted: "sorted (pending s) \<and> distinct (pending s)"
  by (simp add: pending_def sorted_wrt_filter)

lemma pending_not_complete: "i \<in> set (pending s) \<Longrightarrow> \<not> is_complete (complete s) i"
  by (simp add: pending_def)

lemma prefix_sorted_distinct:
  "prefix xs ys \<Longrightarrow> sorted ys \<and> distinct ys \<Longrightarrow> sorted xs \<and> distinct xs"
  by (auto simp: prefix_def sorted_append)

lemma pending_marked:
  "pending (s\<lparr>complete := marked mk (complete s) evs\<rparr>) =
   filter (\<lambda>i. (i, mk) \<notin> set evs) (pending s)"
  by (simp add: pending_def marked_is_complete conj_commute)

lemma pending_Reset: "pending (fst (pcomposite_Reset s w)) = [0..<length (pcomposite.nodes s)]"
  by (simp add: pcomposite_Reset_def pending_def is_complete_def)

lemma pending_nodes_upd:
  "pending (s\<lparr>pcomposite.nodes := (pcomposite.nodes s)[i := b]\<rparr>) = pending s"
  by (simp add: pending_def)

lemma pass_skips:
  assumes "i \<notin> set js"
  shows "pass mk (ns[i := b]) js w = pass mk ns js w"
proof (rule pass_cong)
  fix j assume "j \<in> set js"
  with assms have "j \<noteq> i" by blast
  then show "ns[i := b] ! j = ns ! j" by simp
qed

lemma psequence_skips:
  assumes "i \<notin> set (pending s)"
  shows "psequence_Execute (s\<lparr>pcomposite.nodes := (pcomposite.nodes s)[i := b]\<rparr>) v =
     (case psequence_Execute s v of
        (r, s2, v2) \<Rightarrow> (r, s2\<lparr>pcomposite.nodes := (pcomposite.nodes s)[i := b]\<rparr>, v2))"
  by (simp add: psequence_Execute_pass pending_nodes_upd pass_skips [OF assms]
      split: prod.splits)

lemma pselection_skips:
  assumes "i \<notin> set (pending s)"
  shows "pselection_Execute (s\<lparr>pcomposite.nodes := (pcomposite.nodes s)[i := b]\<rparr>) v =
     (case pselection_Execute s v of
        (r, s2, v2) \<Rightarrow> (r, s2\<lparr>pcomposite.nodes := (pcomposite.nodes s)[i := b]\<rparr>, v2))"
  by (simp add: pselection_Execute_pass pending_nodes_upd pass_skips [OF assms]
      split: prod.splits)


subsection \<open>Helper lemmas on ticks and decorators\<close>

lemma ticks_numeral:
  "ticks ex (numeral k) x =
     (case ex x of (r, x1) \<Rightarrow> case ticks ex (pred_numeral k) x1 of (rs, x2) \<Rightarrow> (r # rs, x2))"
  by (simp add: numeral_eq_Suc)

lemma ticks_decorator:
  assumes "\<And>s w. transform d s w = (table a c s, if s \<in> R then Reset (node d) w else w)"
  shows "ticks (decorator_Execute d) n w =
         (case ticks (tick_child R (node d)) n w of (rs, w') \<Rightarrow> (map (table a c) rs, w'))"
proof (induction n arbitrary: w)
  case 0
  show ?case by simp
next
  case (Suc n)
  have step: "decorator_Execute d w =
      (case tick_child R (node d) w of (s, w1) \<Rightarrow> (table a c s, w1))"
    by (simp add: decorator_Execute_def tick_child_def assms split: prod.splits)
  show ?case
    by (simp add: step Suc split: prod.splits)
qed

lemmas decorator_defs =
  decorator_Execute_def Invert_def Repeat_def ForceSuccess_def ForceFailure_def Until_def
  While_def invert_def repeat_def force_success_def force_failure_def until_def
  while_transform_def

lemmas test_defs = testBehavior_def Recorded_def Action_def Let_def

subsection \<open>Sequence\<close>

text \<open>
  C1. A tick of a Sequence, \<open>sequence_Execute s w = (r, s', w')\<close>, iterates the children
  from the stored cursor \<open>index s\<close>: the child list is unchanged and the cursor never
  moves back; every child \<open>j\<close> from the old cursor up to the new one (excluded) was
  executed in the world its predecessors left and returned \<^verbatim>\<open>Success\<close>, which advanced
  the cursor by one within the same tick. If the new cursor is the index of a child,
  that child was executed next, in the world the children before it left, and returned
  something other than \<^verbatim>\<open>Success\<close>: the iteration stopped there with the cursor at that
  index and with the world that child left, and the tick returns \<^verbatim>\<open>Running\<close> for
  \<^verbatim>\<open>Running\<close>, \<^verbatim>\<open>Failure\<close> for \<^verbatim>\<open>Failure\<close>, and \<^verbatim>\<open>Unknown\<close> for \<^verbatim>\<open>Unknown\<close> and every
  unrecognized value. Otherwise the cursor has reached the end of the child list and
  the tick returns \<^verbatim>\<open>Success\<close>; an empty Sequence does so at once.
\<close>

theorem sequence_Execute_trace:
  assumes run: "sequence_Execute s w = (r, s', w')"
  shows "s' = s\<lparr>index := index s'\<rparr> \<and> index s \<le> index s' \<and>
     (\<forall>j. index s \<le> j \<and> j < index s' \<longrightarrow>
          fst (Execute (composite.nodes s ! j) (world_before s j w)) = Success) \<and>
     (if index s' < length (composite.nodes s) then
        (case Execute (composite.nodes s ! index s') (world_before s (index s') w) of (rc, wc) \<Rightarrow>
           rc \<noteq> Success \<and> w' = wc \<and>
           r = (if rc = Running then Running else if rc = Failure then Failure else Unknown))
      else r = Success \<and> w' = world_before s (index s') w \<and>
           index s' = max (index s) (length (composite.nodes s)))"
proof -
  from sequence_fields [OF run] obtain k where k: "s' = s\<lparr>index := k\<rparr>"
    by blast
  then have "index s' = k"
    by simp
  with k have "s' = s\<lparr>index := index s'\<rparr>"
    by simp
  with sequence_run [OF run] show ?thesis
    by blast
qed

theorem sequence_Execute_trace_witness:
  "sequence_Execute
     (Sequence [Recorded 0 [Running, Success], Recorded 1 [Running, Success], Recorded 2 [Success]])
     ((\<lambda>_. 0)(0 := 1))
   = (Running,
      \<lparr>composite.nodes =
         [Recorded 0 [Running, Success], Recorded 1 [Running, Success], Recorded 2 [Success]],
       index = 1\<rparr>,
      (\<lambda>_. 0)(0 := 2, 1 := 1))
   \<and> fst (Execute (Recorded 0 [Running, Success])
          (world_before
            (Sequence [Recorded 0 [Running, Success], Recorded 1 [Running, Success],
                       Recorded 2 [Success]])
            0 ((\<lambda>_. 0)(0 := 1)))) = Success
   \<and> fst (Execute (Recorded 1 [Running, Success])
          (world_before
            (Sequence [Recorded 0 [Running, Success], Recorded 1 [Running, Success],
                       Recorded 2 [Success]])
            1 ((\<lambda>_. 0)(0 := 1)))) = Running
   \<and> sequence_Execute (Sequence []) (\<lambda>_. 0 :: nat) = (Success, Sequence [], \<lambda>_. 0)"
proof -
  let ?ns = "[Recorded 0 [Running, Success], Recorded 1 [Running, Success], Recorded 2 [Success]]"
  have run: "sequence_Execute (Sequence ?ns) ((\<lambda>_. 0)(0 := 1))
      = (Running, \<lparr>composite.nodes = ?ns, index = 1\<rparr>, (\<lambda>_. 0)(0 := 2, 1 := 1))"
    by (simp add: sequence_Execute.simps Sequence_def Recorded_def Action_def numeral_2_eq_2)
  have empty: "sequence_Execute (Sequence []) (\<lambda>_. 0 :: nat) = (Success, Sequence [], \<lambda>_. 0)"
    by (simp add: sequence_Execute.simps Sequence_def)
  from sequence_Execute_trace [OF run] run empty show ?thesis
    by (simp add: Sequence_def Recorded_def Action_def world_before_def run_children_def)
qed

subsection \<open>Selection\<close>

text \<open>
  C2. A tick of a Selection is the exact dual of a tick of a Sequence. With
  \<open>selection_Execute s w = (r, s', w')\<close>: only the cursor changes and it never moves
  back; every child from the old cursor up to the new one (excluded) was executed in
  turn and returned \<^verbatim>\<open>Failure\<close>, which advanced the cursor within the same tick. If the
  new cursor is the index of a child, that child was executed next and returned
  something other than \<^verbatim>\<open>Failure\<close>; the iteration stopped with the cursor retained at
  that index, and the tick returns \<^verbatim>\<open>Running\<close> for \<^verbatim>\<open>Running\<close>, \<^verbatim>\<open>Success\<close> for \<^verbatim>\<open>Success\<close>
  and \<^verbatim>\<open>Unknown\<close> for every other value. Otherwise all children are exhausted and the
  tick returns \<^verbatim>\<open>Failure\<close>, as an empty Selection does. And the tick is the tick of the
  Sequence over the dual children from the same cursor, with the result swapped.
\<close>

theorem selection_Execute_trace:
  assumes run: "selection_Execute s w = (r, s', w')"
  shows "s' = s\<lparr>index := index s'\<rparr> \<and> index s \<le> index s' \<and>
     (\<forall>j. index s \<le> j \<and> j < index s' \<longrightarrow>
          fst (Execute (composite.nodes s ! j) (world_before s j w)) = Failure) \<and>
     (if index s' < length (composite.nodes s) then
        (case Execute (composite.nodes s ! index s') (world_before s (index s') w) of (rc, wc) \<Rightarrow>
           rc \<noteq> Failure \<and> w' = wc \<and>
           r = (if rc = Running then Running else if rc = Success then Success else Unknown))
      else r = Failure \<and> w' = world_before s (index s') w \<and>
           index s' = max (index s) (length (composite.nodes s))) \<and>
     sequence_Execute (s\<lparr>composite.nodes := map dual (composite.nodes s)\<rparr>) w =
       (swap_result r, s'\<lparr>composite.nodes := map dual (composite.nodes s)\<rparr>, w')"
proof -
  from selection_fields [OF run] obtain k where k: "s' = s\<lparr>index := k\<rparr>"
    by blast
  then have "index s' = k"
    by simp
  with k have "s' = s\<lparr>index := index s'\<rparr>"
    by simp
  with selection_run [OF run] selection_dual_sequence [OF run] show ?thesis
    by blast
qed

theorem selection_Execute_trace_witness:
  "selection_Execute
     (Selection [Recorded 0 [Failure], Recorded 1 [Running, Success]]) (\<lambda>_. 0)
   = (Running,
      \<lparr>composite.nodes = [Recorded 0 [Failure], Recorded 1 [Running, Success]], index = 1\<rparr>,
      (\<lambda>_. 0)(0 := 1, 1 := 1))
   \<and> fst (Execute (Recorded 0 [Failure])
          (world_before (Selection [Recorded 0 [Failure], Recorded 1 [Running, Success]])
             0 (\<lambda>_. 0))) = Failure
   \<and> fst (Execute (Recorded 1 [Running, Success])
          (world_before (Selection [Recorded 0 [Failure], Recorded 1 [Running, Success]])
             1 (\<lambda>_. 0))) = Running
   \<and> sequence_Execute
        \<lparr>composite.nodes = [dual (Recorded 0 [Failure]), dual (Recorded 1 [Running, Success])],
         index = 0\<rparr> (\<lambda>_. 0)
      = (Running,
         \<lparr>composite.nodes = [dual (Recorded 0 [Failure]), dual (Recorded 1 [Running, Success])],
          index = 1\<rparr>,
         (\<lambda>_. 0)(0 := 1, 1 := 1))
   \<and> selection_Execute (Selection []) (\<lambda>_. 0 :: nat) = (Failure, Selection [], \<lambda>_. 0)"
proof -
  let ?ns = "[Recorded 0 [Failure], Recorded 1 [Running, Success]]"
  have run: "selection_Execute (Selection ?ns) (\<lambda>_. 0)
      = (Running, \<lparr>composite.nodes = ?ns, index = 1\<rparr>, (\<lambda>_. 0)(0 := 1, 1 := 1))"
    by (simp add: selection_Execute.simps Selection_def Recorded_def Action_def)
  have empty: "selection_Execute (Selection []) (\<lambda>_. 0 :: nat) = (Failure, Selection [], \<lambda>_. 0)"
    by (simp add: selection_Execute.simps Selection_def)
  from selection_Execute_trace [OF run] run empty show ?thesis
    by (simp add: Selection_def Recorded_def Action_def world_before_def run_children_def
        swap_result_def)
qed

subsection \<open>Decorators\<close>

text \<open>
  C4. When the child's \<^verbatim>\<open>Execute\<close> returns \<^verbatim>\<open>Unknown\<close>, or any value that is none of
  \<^verbatim>\<open>Running\<close>, \<^verbatim>\<open>Success\<close> and \<^verbatim>\<open>Failure\<close>, each of the six decorators returns \<^verbatim>\<open>Unknown\<close>
  and leaves the world exactly as the child's \<^verbatim>\<open>Execute\<close> left it: the child is not
  reset, and no decorator turns the anomaly into another outcome.
\<close>

theorem decorator_Unknown:
  assumes "Execute b w = (s, w1)" and "s \<noteq> Running" and "s \<noteq> Success" and "s \<noteq> Failure"
  shows "decorator_Execute (Invert b) w = (Unknown, w1) \<and>
     decorator_Execute (Repeat b) w = (Unknown, w1) \<and>
     decorator_Execute (ForceSuccess b) w = (Unknown, w1) \<and>
     decorator_Execute (ForceFailure b) w = (Unknown, w1) \<and>
     decorator_Execute (Until b) w = (Unknown, w1) \<and>
     decorator_Execute (While b) w = (Unknown, w1)"
proof -
  have "transform (Invert b) s w1 = (Unknown, w1)"
    using assms(2-4) by (simp add: Invert_def invert_def)
  moreover have "transform (Repeat b) s w1 = (Unknown, w1)"
    using assms(2-4) by (simp add: Repeat_def repeat_def)
  moreover have "transform (ForceSuccess b) s w1 = (Unknown, w1)"
    using assms(2-4) by (simp add: ForceSuccess_def force_success_def)
  moreover have "transform (ForceFailure b) s w1 = (Unknown, w1)"
    using assms(2-4) by (simp add: ForceFailure_def force_failure_def)
  moreover have "transform (Until b) s w1 = (Unknown, w1)"
    using assms(2-4) by (simp add: Until_def until_def)
  moreover have "transform (While b) s w1 = (Unknown, w1)"
    using assms(2-4) by (simp add: While_def while_transform_def)
  moreover have "node (Invert b) = b" "node (Repeat b) = b" "node (ForceSuccess b) = b"
    "node (ForceFailure b) = b" "node (Until b) = b" "node (While b) = b"
    by (simp_all add: Invert_def Repeat_def ForceSuccess_def ForceFailure_def Until_def
        While_def)
  ultimately show ?thesis
    using assms(1) by (simp add: decorator_Execute_def)
qed

theorem decorator_Unknown_witness:
  "Execute (testBehavior 1 2 (Recorded 0 [7])) (\<lambda>_. 0) = (7, (\<lambda>_. 0)(1 := 1, 0 := 1))
   \<and> decorator_Execute (Invert (testBehavior 1 2 (Recorded 0 [7]))) (\<lambda>_. 0)
       = (Unknown, (\<lambda>_. 0)(1 := 1, 0 := 1))
   \<and> decorator_Execute (Repeat (testBehavior 1 2 (Recorded 0 [7]))) (\<lambda>_. 0)
       = (Unknown, (\<lambda>_. 0)(1 := 1, 0 := 1))
   \<and> decorator_Execute (Until (testBehavior 1 2 (Recorded 0 [7]))) (\<lambda>_. 0)
       = (Unknown, (\<lambda>_. 0)(1 := 1, 0 := 1))
   \<and> decorator_Execute (While (testBehavior 1 2 (Recorded 0 [7]))) (\<lambda>_. 0)
       = (Unknown, (\<lambda>_. 0)(1 := 1, 0 := 1))
   \<and> ((\<lambda>_. 0)(1 := 1, 0 := 1) :: store) 2 = 0"
proof -
  have ex: "Execute (testBehavior 1 2 (Recorded 0 [7])) (\<lambda>_. 0) = (7, (\<lambda>_. 0)(1 := 1, 0 := 1))"
    by (simp add: test_defs)
  from decorator_Unknown [OF ex] ex show ?thesis
    by simp
qed

text \<open>
  C10. A decorator keeps no state of its own, so whatever it returned before, each tick
  executes the wrapped child exactly once, resets it when the row of the decorator says
  so, and returns the row's image of what the child returned in this tick: over any
  number \<open>n\<close> of ticks the results are the images of the child's results. So the
  \<^verbatim>\<open>Success\<close> of Until and the \<^verbatim>\<open>Failure\<close> of While are not latched: Until over a child
  that succeeds and then fails returns \<^verbatim>\<open>Success\<close> and then \<^verbatim>\<open>Running\<close>, and While over a
  child that fails and then succeeds returns \<^verbatim>\<open>Failure\<close> and then \<^verbatim>\<open>Running\<close>.
\<close>

theorem decorator_ticks:
  "ticks (decorator_Execute (Invert b)) n w =
     (case ticks (tick_child {} b) n w of (rs, w') \<Rightarrow> (map (table Failure Success) rs, w')) \<and>
   ticks (decorator_Execute (Repeat b)) n w =
     (case ticks (tick_child {Success, Failure} b) n w of
        (rs, w') \<Rightarrow> (map (table Running Running) rs, w')) \<and>
   ticks (decorator_Execute (ForceSuccess b)) n w =
     (case ticks (tick_child {} b) n w of (rs, w') \<Rightarrow> (map (table Success Success) rs, w')) \<and>
   ticks (decorator_Execute (ForceFailure b)) n w =
     (case ticks (tick_child {} b) n w of (rs, w') \<Rightarrow> (map (table Failure Failure) rs, w')) \<and>
   ticks (decorator_Execute (Until b)) n w =
     (case ticks (tick_child {Failure} b) n w of
        (rs, w') \<Rightarrow> (map (table Success Running) rs, w')) \<and>
   ticks (decorator_Execute (While b)) n w =
     (case ticks (tick_child {Success} b) n w of
        (rs, w') \<Rightarrow> (map (table Running Failure) rs, w')) \<and>
   fst (ticks (decorator_Execute (Until (Recorded 0 [Success, Failure]))) 2 (\<lambda>_. 0))
     = [Success, Running] \<and>
   fst (ticks (decorator_Execute (While (Recorded 0 [Failure, Success]))) 2 (\<lambda>_. 0))
     = [Failure, Running]"
proof -
  have 1: "ticks (decorator_Execute (Invert b)) n w =
     (case ticks (tick_child {} (node (Invert b))) n w of
        (rs, w') \<Rightarrow> (map (table Failure Success) rs, w'))"
    by (rule ticks_decorator) (simp add: Invert_def invert_def table_def)
  have 2: "ticks (decorator_Execute (Repeat b)) n w =
     (case ticks (tick_child {Success, Failure} (node (Repeat b))) n w of
        (rs, w') \<Rightarrow> (map (table Running Running) rs, w'))"
    by (rule ticks_decorator) (simp add: Repeat_def repeat_def table_def)
  have 3: "ticks (decorator_Execute (ForceSuccess b)) n w =
     (case ticks (tick_child {} (node (ForceSuccess b))) n w of
        (rs, w') \<Rightarrow> (map (table Success Success) rs, w'))"
    by (rule ticks_decorator) (simp add: ForceSuccess_def force_success_def table_def)
  have 4: "ticks (decorator_Execute (ForceFailure b)) n w =
     (case ticks (tick_child {} (node (ForceFailure b))) n w of
        (rs, w') \<Rightarrow> (map (table Failure Failure) rs, w'))"
    by (rule ticks_decorator) (simp add: ForceFailure_def force_failure_def table_def)
  have 5: "ticks (decorator_Execute (Until b)) n w =
     (case ticks (tick_child {Failure} (node (Until b))) n w of
        (rs, w') \<Rightarrow> (map (table Success Running) rs, w'))"
    by (rule ticks_decorator) (simp add: Until_def until_def table_def)
  have 6: "ticks (decorator_Execute (While b)) n w =
     (case ticks (tick_child {Success} (node (While b))) n w of
        (rs, w') \<Rightarrow> (map (table Running Failure) rs, w'))"
    by (rule ticks_decorator) (simp add: While_def while_transform_def table_def)
  have n: "node (Invert b) = b" "node (Repeat b) = b" "node (ForceSuccess b) = b"
    "node (ForceFailure b) = b" "node (Until b) = b" "node (While b) = b"
    by (simp_all add: Invert_def Repeat_def ForceSuccess_def ForceFailure_def Until_def
        While_def)
  have 7: "fst (ticks (decorator_Execute (Until (Recorded 0 [Success, Failure]))) 2 (\<lambda>_. 0))
     = [Success, Running]"
    by (simp add: ticks_numeral decorator_defs test_defs)
  have 8: "fst (ticks (decorator_Execute (While (Recorded 0 [Failure, Success]))) 2 (\<lambda>_. 0))
     = [Failure, Running]"
    by (simp add: ticks_numeral decorator_defs test_defs)
  from 1 2 3 4 5 6 7 8 show ?thesis
    unfolding n by blast
qed

theorem decorator_ticks_witness:
  "fst (ticks (decorator_Execute (Until (Recorded 0 [Failure, Success, Running]))) 3 (\<lambda>_. 0))
     = map (table Success Running) [Failure, Success, Running]
   \<and> fst (ticks (tick_child {Failure} (Recorded 0 [Failure, Success, Running])) 3 (\<lambda>_. 0))
     = [Failure, Success, Running]"
proof -
  have "fst (ticks (tick_child {Failure} (Recorded 0 [Failure, Success, Running])) 3 (\<lambda>_. 0))
     = [Failure, Success, Running]"
    by (simp add: ticks_numeral tick_child_def test_defs)
  with decorator_ticks [of "Recorded 0 [Failure, Success, Running]" 3 "\<lambda>_. 0"]
  show ?thesis
    by (simp add: split_beta)
qed

text \<open>
  C7. The tree \<^verbatim>\<open>Repeat(Recorded(Running, Failure, Success, Unknown))\<close>, ticked four
  times, yields \<^verbatim>\<open>[Running, Running, Running, Unknown]\<close>. With the child wrapped in the
  \<^verbatim>\<open>testBehavior\<close> of the tests, which counts the calls of its \<^verbatim>\<open>Reset\<close> at address
  \<open>2\<close>, the results are the same and the counter reads \<open>0\<close> after the first tick (the
  child returned \<^verbatim>\<open>Running\<close>), \<open>1\<close> after the second (\<^verbatim>\<open>Failure\<close>), \<open>2\<close> after the third
  (\<^verbatim>\<open>Success\<close>) and still \<open>2\<close> after the fourth (\<^verbatim>\<open>Unknown\<close>): the child is reset
  exactly twice.
\<close>

theorem Repeat_Recorded_scenario:
  "fst (ticks (decorator_Execute (Repeat (Recorded 0 [Running, Failure, Success, Unknown])))
         4 (\<lambda>_. 0))
     = [Running, Running, Running, Unknown]
   \<and> fst (ticks (decorator_Execute
              (Repeat (testBehavior 1 2 (Recorded 0 [Running, Failure, Success, Unknown]))))
            4 (\<lambda>_. 0))
     = [Running, Running, Running, Unknown]
   \<and> snd (ticks (decorator_Execute
              (Repeat (testBehavior 1 2 (Recorded 0 [Running, Failure, Success, Unknown]))))
            1 (\<lambda>_. 0)) 2 = 0
   \<and> snd (ticks (decorator_Execute
              (Repeat (testBehavior 1 2 (Recorded 0 [Running, Failure, Success, Unknown]))))
            2 (\<lambda>_. 0)) 2 = 1
   \<and> snd (ticks (decorator_Execute
              (Repeat (testBehavior 1 2 (Recorded 0 [Running, Failure, Success, Unknown]))))
            3 (\<lambda>_. 0)) 2 = 2
   \<and> snd (ticks (decorator_Execute
              (Repeat (testBehavior 1 2 (Recorded 0 [Running, Failure, Success, Unknown]))))
            4 (\<lambda>_. 0)) 2 = 2
   \<and> snd (ticks (decorator_Execute
              (Repeat (testBehavior 1 2 (Recorded 0 [Running, Failure, Success, Unknown]))))
            4 (\<lambda>_. 0)) 1 = 4"
  by (simp add: ticks_numeral decorator_defs test_defs)

subsection \<open>The Selection scenario\<close>

text \<open>
  C6, as the specification states it: three ticks of
  \<^verbatim>\<open>Selection(Recorded(Running, Failure), Recorded(Failure), Recorded(Unknown),
  Recorded(Success))\<close> yield \<^verbatim>\<open>[Running, Running, Unknown]\<close>. They do not: the second
  tick already reaches the third child.
\<close>

theorem Selection_scenario_counterexample:
  "fst (ticks (case_prod selection_Execute) 3
     (Selection [Recorded 0 [Running, Failure], Recorded 1 [Failure], Recorded 2 [Unknown],
                 Recorded 3 [Success]], \<lambda>_. 0))
   \<noteq> [Running, Running, Unknown]"
  by (simp add: ticks_numeral selection_Execute.simps Selection_def Recorded_def Action_def)

text \<open>
  C6, amended: the three ticks yield \<^verbatim>\<open>[Running, Unknown, Unknown]\<close>. The first tick
  stops at the first child, which is running. In the second tick the first and the
  second child fail and the third returns \<^verbatim>\<open>Unknown\<close>; the third tick resumes at the
  third child, which returns \<^verbatim>\<open>Unknown\<close> again. The cursor ends at index \<open>2\<close>, and the
  counter of the final child, at address \<open>3\<close>, is still \<open>0\<close>: it is never executed.
\<close>

theorem Selection_scenario:
  "fst (ticks (case_prod selection_Execute) 3
     (Selection [Recorded 0 [Running, Failure], Recorded 1 [Failure], Recorded 2 [Unknown],
                 Recorded 3 [Success]], \<lambda>_. 0))
   = [Running, Unknown, Unknown]
   \<and> index (fst (snd (ticks (case_prod selection_Execute) 3
     (Selection [Recorded 0 [Running, Failure], Recorded 1 [Failure], Recorded 2 [Unknown],
                 Recorded 3 [Success]], \<lambda>_. 0)))) = 2
   \<and> snd (snd (ticks (case_prod selection_Execute) 3
     (Selection [Recorded 0 [Running, Failure], Recorded 1 [Failure], Recorded 2 [Unknown],
                 Recorded 3 [Success]], \<lambda>_. 0))) 3 = 0"
  by (simp add: ticks_numeral selection_Execute.simps Selection_def Recorded_def Action_def)

subsection \<open>The stale cursor of a serial composite\<close>





subsection \<open>The cursor invariant\<close>

text \<open>
  C8. Start from a freshly constructed Sequence or Selection over the children \<open>bs\<close> and
  apply any interleaving of calls of \<^verbatim>\<open>Execute\<close> and \<^verbatim>\<open>Reset\<close>: the child list is still
  \<open>bs\<close> and the cursor is at most its length (it is a natural number, so it is at least
  \<open>0\<close>). A call of \<^verbatim>\<open>Execute\<close>, in any state, leaves the cursor greater than or equal to
  its previous value, so between two resets it only grows. \<^verbatim>\<open>Reset\<close> sets the cursor to
  \<open>0\<close> and calls the \<^verbatim>\<open>Reset\<close> of every child, once each in index order.
\<close>

theorem cursor_invariant:
  "index (fst (interleaving sequence_Execute calls (Sequence bs, w))) \<le> length bs \<and>
   composite.nodes (fst (interleaving sequence_Execute calls (Sequence bs, w))) = bs \<and>
   index (fst (interleaving selection_Execute calls (Selection bs, w))) \<le> length bs \<and>
   composite.nodes (fst (interleaving selection_Execute calls (Selection bs, w))) = bs \<and>
   index c \<le> index (fst (snd (sequence_Execute c v))) \<and>
   index c \<le> index (fst (snd (selection_Execute c v))) \<and>
   composite_Reset c v = (c\<lparr>index := 0\<rparr>, fold Reset (composite.nodes c) v)"
proof -
  have a: "index (fst (interleaving sequence_Execute calls (Sequence bs, w)))
      \<le> length (composite.nodes (Sequence bs)) \<and>
    composite.nodes (fst (interleaving sequence_Execute calls (Sequence bs, w)))
      = composite.nodes (Sequence bs)"
    by (rule interleaving_invariant) (auto simp: Sequence_def dest: sequence_bound)
  have b: "index (fst (interleaving selection_Execute calls (Selection bs, w)))
      \<le> length (composite.nodes (Selection bs)) \<and>
    composite.nodes (fst (interleaving selection_Execute calls (Selection bs, w)))
      = composite.nodes (Selection bs)"
    by (rule interleaving_invariant) (auto simp: Selection_def dest: selection_bound)
  have c: "index c \<le> index (fst (snd (sequence_Execute c v)))"
    using sequence_run [of c v "fst (sequence_Execute c v)" "fst (snd (sequence_Execute c v))"
        "snd (snd (sequence_Execute c v))"] by simp
  have d: "index c \<le> index (fst (snd (selection_Execute c v)))"
    using selection_run [of c v "fst (selection_Execute c v)" "fst (snd (selection_Execute c v))"
        "snd (snd (selection_Execute c v))"] by simp
  from a b c d show ?thesis
    by (simp add: Sequence_def Selection_def composite_Reset_def)
qed


theorem cursor_invariant_witness:
  "index (fst (interleaving sequence_Execute [CallExecute, CallReset, CallExecute, CallExecute]
       (Sequence [Recorded 0 [Success], Recorded 1 [Running, Success]], \<lambda>_. 0))) = 2
   \<and> index (fst (interleaving sequence_Execute [CallExecute, CallReset, CallExecute, CallExecute]
       (Sequence [Recorded 0 [Success], Recorded 1 [Running, Success]], \<lambda>_. 0)))
      \<le> length [Recorded 0 [Success], Recorded 1 [Running, Success]]"
proof -
  have "index (fst (interleaving sequence_Execute [CallExecute, CallReset, CallExecute, CallExecute]
       (Sequence [Recorded 0 [Success], Recorded 1 [Running, Success]], \<lambda>_. 0))) = 2"
    by (simp add: interleaving_def composite_Reset_def sequence_Execute.simps Sequence_def
        Recorded_def Action_def)
  with cursor_invariant [of "[CallExecute, CallReset, CallExecute, CallExecute]"
      "[Recorded 0 [Success], Recorded 1 [Running, Success]]" "\<lambda>_. 0"]
  show ?thesis
    by simp
qed

subsection \<open>PSequence\<close>

text \<open>
  C3. A tick of a PSequence, \<open>psequence_Execute s w = (r, s', w')\<close>, is one pass over the
  pending children, those not in the completed-set, in index order: its calls of
  \<^verbatim>\<open>Execute\<close> and the world they leave are those of \<open>pass\<close>, every called child is
  pending and is called once (the indices of the log are a prefix of the pending ones,
  increasing and distinct), and only the last call may have returned something other
  than \<^verbatim>\<open>Success\<close> or \<^verbatim>\<open>Running\<close>. Exactly the children that returned \<^verbatim>\<open>Success\<close> are
  added to the completed-set and are no longer pending. If the last call returned
  neither \<^verbatim>\<open>Success\<close> nor \<^verbatim>\<open>Running\<close>, the pass stopped there, without executing the
  remaining children, and the tick returns \<^verbatim>\<open>Failure\<close> for \<^verbatim>\<open>Failure\<close> and \<^verbatim>\<open>Unknown\<close>
  otherwise. If not, every pending child was called, and the tick returns \<^verbatim>\<open>Running\<close>
  if some child returned \<^verbatim>\<open>Running\<close> and \<^verbatim>\<open>Success\<close> otherwise. A child in the
  completed-set is not invoked by a later tick: the tick is the same whatever node
  stands at its index. After \<^verbatim>\<open>Reset\<close> all children are pending again.
\<close>

theorem psequence_Execute_spec:
  assumes run: "psequence_Execute s w = (r, s', w')"
  shows "(case pass Success (pcomposite.nodes s) (pending s) w of (evs, w1) \<Rightarrow>
      w' = w1 \<and> s' = s\<lparr>complete := marked Success (complete s) evs\<rparr> \<and>
      prefix (map fst evs) (pending s) \<and> sorted (map fst evs) \<and> distinct (map fst evs) \<and>
      (\<forall>i c. (i, c) \<in> set evs \<longrightarrow>
         i < length (pcomposite.nodes s) \<and> \<not> is_complete (complete s) i \<and>
         (c = Success \<or> c = Running \<or> (i, c) = last evs)) \<and>
      (\<forall>i. is_complete (complete s') i = (is_complete (complete s) i \<or> (i, Success) \<in> set evs)) \<and>
      pending s' = filter (\<lambda>i. (i, Success) \<notin> set evs) (pending s) \<and>
      (if aborted Success evs then r = (if snd (last evs) = Failure then Failure else Unknown)
       else map fst evs = pending s \<and>
            r = (if Running \<in> snd ` set evs then Running else Success))) \<and>
    (\<forall>i b v. is_complete (complete s') i \<longrightarrow>
       psequence_Execute (s'\<lparr>pcomposite.nodes := (pcomposite.nodes s')[i := b]\<rparr>) v =
       (case psequence_Execute s' v of
          (r2, s2, v2) \<Rightarrow> (r2, s2\<lparr>pcomposite.nodes := (pcomposite.nodes s')[i := b]\<rparr>, v2))) \<and>
    pending (fst (pcomposite_Reset s' w')) = [0..<length (pcomposite.nodes s)]"
proof -
  obtain evs w1 where p: "pass Success (pcomposite.nodes s) (pending s) w = (evs, w1)"
    by (cases "pass Success (pcomposite.nodes s) (pending s) w")
  from run p have r: "r = verdict Success Failure evs"
    and s': "s' = s\<lparr>complete := marked Success (complete s) evs\<rparr>" and w': "w' = w1"
    by (simp_all add: psequence_Execute_pass)
  from pass_prefix [of Success "pcomposite.nodes s" "pending s" w] p
  have pre: "prefix (map fst evs) (pending s)"
    by simp
  from prefix_sorted_distinct [OF pre pending_sorted]
  have sd: "sorted (map fst evs)" "distinct (map fst evs)"
    by simp_all
  have ev: "i < length (pcomposite.nodes s) \<and> \<not> is_complete (complete s) i \<and>
         (c = Success \<or> c = Running \<or> (i, c) = last evs)" if "(i, c) \<in> set evs" for i c
  proof -
    from that have "i \<in> set (map fst evs)" by force
    moreover from pre have "set (map fst evs) \<subseteq> set (pending s)" by (rule set_mono_prefix)
    ultimately have "i \<in> set (pending s)" by blast
    then have "i < length (pcomposite.nodes s) \<and> \<not> is_complete (complete s) i"
      by (simp add: pending_def)
    moreover from pass_results [of i c Success "pcomposite.nodes s" "pending s" w] p that
    have "c = Success \<or> c = Running \<or> (i, c) = last evs" by simp
    ultimately show ?thesis by simp
  qed
  have mc: "is_complete (complete s') i = (is_complete (complete s) i \<or> (i, Success) \<in> set evs)"
    for i
    by (simp add: s' marked_is_complete)
  have pend: "pending s' = filter (\<lambda>i. (i, Success) \<notin> set evs) (pending s)"
    unfolding s' by (rule pending_marked)
  have res: "if aborted Success evs then r = (if snd (last evs) = Failure then Failure else Unknown)
       else map fst evs = pending s \<and>
            r = (if Running \<in> snd ` set evs then Running else Success)"
  proof (cases "aborted Success evs")
    case True
    then show ?thesis by (simp add: r verdict_def)
  next
    case False
    with pass_all [of Success "pcomposite.nodes s" "pending s" w] p
    have "map fst evs = pending s" by simp
    with False show ?thesis by (simp add: r verdict_def)
  qed
  have skip: "psequence_Execute (s'\<lparr>pcomposite.nodes := (pcomposite.nodes s')[i := b]\<rparr>) v =
       (case psequence_Execute s' v of
          (r2, s2, v2) \<Rightarrow> (r2, s2\<lparr>pcomposite.nodes := (pcomposite.nodes s')[i := b]\<rparr>, v2))"
    if "is_complete (complete s') i" for i b v
  proof (rule psequence_skips)
    from that show "i \<notin> set (pending s')" by (auto dest: pending_not_complete)
  qed
  have reset: "pending (fst (pcomposite_Reset s' w')) = [0..<length (pcomposite.nodes s)]"
    by (simp add: pending_Reset s')
  from p w' s' pre sd ev mc pend res skip reset show ?thesis
    by simp
qed

theorem psequence_Execute_spec_witness:
  "psequence_Execute
     (PSequence [Recorded 0 [Success], Recorded 1 [Running, Failure], Recorded 2 [Success]])
     (\<lambda>_. 0)
   = (Running,
      \<lparr>pcomposite.nodes =
         [Recorded 0 [Success], Recorded 1 [Running, Failure], Recorded 2 [Success]],
       complete = [0 \<mapsto> True, 2 \<mapsto> True]\<rparr>,
      (\<lambda>_. 0)(0 := 1, 1 := 1, 2 := 1))
   \<and> pass Success [Recorded 0 [Success], Recorded 1 [Running, Failure], Recorded 2 [Success]]
        (pending (PSequence
           [Recorded 0 [Success], Recorded 1 [Running, Failure], Recorded 2 [Success]]))
        (\<lambda>_. 0)
      = ([(0, Success), (1, Running), (2, Success)], (\<lambda>_. 0)(0 := 1, 1 := 1, 2 := 1))
   \<and> pending \<lparr>pcomposite.nodes =
         [Recorded 0 [Success], Recorded 1 [Running, Failure], Recorded 2 [Success]],
       complete = [0 \<mapsto> True, 2 \<mapsto> True]\<rparr> = [1]
   \<and> fst (psequence_Execute
       \<lparr>pcomposite.nodes =
         [Recorded 0 [Success], Recorded 1 [Running, Failure], Recorded 2 [Success]],
       complete = [0 \<mapsto> True, 2 \<mapsto> True]\<rparr>
       ((\<lambda>_. 0)(0 := 1, 1 := 1, 2 := 1))) = Failure
   \<and> map (snd (snd (psequence_Execute
       \<lparr>pcomposite.nodes =
         [Recorded 0 [Success], Recorded 1 [Running, Failure], Recorded 2 [Success]],
       complete = [0 \<mapsto> True, 2 \<mapsto> True]\<rparr>
       ((\<lambda>_. 0)(0 := 1, 1 := 1, 2 := 1))))) [0, 1, 2] = [1, 2, 1]"
proof -
  let ?ns = "[Recorded 0 [Success], Recorded 1 [Running, Failure], Recorded 2 [Success]]"
  have run: "psequence_Execute (PSequence ?ns) (\<lambda>_. 0)
     = (Running, \<lparr>pcomposite.nodes = ?ns, complete = [0 \<mapsto> True, 2 \<mapsto> True]\<rparr>,
        (\<lambda>_. 0)(0 := 1, 1 := 1, 2 := 1))"
    by (simp add: psequence_Execute_def PSequence_def Recorded_def Action_def is_complete_def
        numeral_2_eq_2)
  have p: "pass Success ?ns (pending (PSequence ?ns)) (\<lambda>_. 0)
      = ([(0, Success), (1, Running), (2, Success)], (\<lambda>_. 0)(0 := 1, 1 := 1, 2 := 1))"
    by (simp add: pending_def PSequence_def Recorded_def Action_def is_complete_def upt_rec)
  have next_tick: "fst (psequence_Execute
       \<lparr>pcomposite.nodes = ?ns, complete = [0 \<mapsto> True, 2 \<mapsto> True]\<rparr>
       ((\<lambda>_. 0)(0 := 1, 1 := 1, 2 := 1))) = Failure"
    "map (snd (snd (psequence_Execute
       \<lparr>pcomposite.nodes = ?ns, complete = [0 \<mapsto> True, 2 \<mapsto> True]\<rparr>
       ((\<lambda>_. 0)(0 := 1, 1 := 1, 2 := 1))))) [0, 1, 2] = [1, 2, 1]"
    by (simp_all add: psequence_Execute_def Recorded_def Action_def is_complete_def)
  have n: "pcomposite.nodes (PSequence ?ns) = ?ns"
    by (simp add: PSequence_def)
  from psequence_Execute_spec [OF run, unfolded n p prod.case]
  have "pending \<lparr>pcomposite.nodes = ?ns, complete = [0 \<mapsto> True, 2 \<mapsto> True]\<rparr>
      = filter (\<lambda>i. (i, Success) \<notin> set [(0, Success), (1, Running), (2::nat, Success)])
          (pending (PSequence ?ns))"
    by blast
  then have "pending \<lparr>pcomposite.nodes = ?ns, complete = [0 \<mapsto> True, 2 \<mapsto> True]\<rparr> = [1]"
    by (simp add: pending_def PSequence_def is_complete_def upt_rec)
  with run p next_tick show ?thesis
    by simp
qed

subsection \<open>An aborted pass keeps its completed-set entries\<close>

text \<open>
  C9. When a tick of a PSequence returns \<^verbatim>\<open>Failure\<close> or \<^verbatim>\<open>Unknown\<close>, it did so by the
  early abort, and the completed-set it leaves is the one before the tick with the
  children added that returned \<^verbatim>\<open>Success\<close> earlier in the same pass: nothing is rolled
  back. Every child that was complete before, or returned \<^verbatim>\<open>Success\<close> in this pass, is
  complete afterwards and not pending, and a subsequent tick without a reset skips it:
  that tick is the same whatever node stands at the child's index. Dually for a
  PSelection that returns \<^verbatim>\<open>Success\<close> or \<^verbatim>\<open>Unknown\<close>, with the children that returned
  \<^verbatim>\<open>Failure\<close>.
\<close>

theorem abort_keeps_completed:
  "(psequence_Execute s w = (r, s', w') \<and> (r = Failure \<or> r = Unknown) \<longrightarrow>
      aborted Success (fst (pass Success (pcomposite.nodes s) (pending s) w)) \<and>
      s' = s\<lparr>complete :=
              marked Success (complete s) (fst (pass Success (pcomposite.nodes s) (pending s) w))\<rparr> \<and>
      (\<forall>i. is_complete (complete s) i \<or>
            (i, Success) \<in> set (fst (pass Success (pcomposite.nodes s) (pending s) w)) \<longrightarrow>
         is_complete (complete s') i \<and> i \<notin> set (pending s') \<and>
         (\<forall>b v. psequence_Execute (s'\<lparr>pcomposite.nodes := (pcomposite.nodes s')[i := b]\<rparr>) v =
            (case psequence_Execute s' v of
               (r2, s2, v2) \<Rightarrow>
                 (r2, s2\<lparr>pcomposite.nodes := (pcomposite.nodes s')[i := b]\<rparr>, v2))))) \<and>
   (pselection_Execute s w = (r, s', w') \<and> (r = Success \<or> r = Unknown) \<longrightarrow>
      aborted Failure (fst (pass Failure (pcomposite.nodes s) (pending s) w)) \<and>
      s' = s\<lparr>complete :=
              marked Failure (complete s) (fst (pass Failure (pcomposite.nodes s) (pending s) w))\<rparr> \<and>
      (\<forall>i. is_complete (complete s) i \<or>
            (i, Failure) \<in> set (fst (pass Failure (pcomposite.nodes s) (pending s) w)) \<longrightarrow>
         is_complete (complete s') i \<and> i \<notin> set (pending s') \<and>
         (\<forall>b v. pselection_Execute (s'\<lparr>pcomposite.nodes := (pcomposite.nodes s')[i := b]\<rparr>) v =
            (case pselection_Execute s' v of
               (r2, s2, v2) \<Rightarrow>
                 (r2, s2\<lparr>pcomposite.nodes := (pcomposite.nodes s')[i := b]\<rparr>, v2)))))"
proof (intro conjI impI)
  let ?evs = "fst (pass Success (pcomposite.nodes s) (pending s) w)"
  assume a: "psequence_Execute s w = (r, s', w') \<and> (r = Failure \<or> r = Unknown)"
  then have r: "r = verdict Success Failure ?evs"
    and s': "s' = s\<lparr>complete := marked Success (complete s) ?evs\<rparr>"
    by (simp_all add: psequence_Execute_pass split: prod.splits)
  from a r show "aborted Success ?evs"
    by (auto simp: verdict_def split: if_splits)
  from s' show "s' = s\<lparr>complete := marked Success (complete s) ?evs\<rparr>" .
  show "\<forall>i. is_complete (complete s) i \<or> (i, Success) \<in> set ?evs \<longrightarrow>
         is_complete (complete s') i \<and> i \<notin> set (pending s') \<and>
         (\<forall>b v. psequence_Execute (s'\<lparr>pcomposite.nodes := (pcomposite.nodes s')[i := b]\<rparr>) v =
            (case psequence_Execute s' v of
               (r2, s2, v2) \<Rightarrow>
                 (r2, s2\<lparr>pcomposite.nodes := (pcomposite.nodes s')[i := b]\<rparr>, v2)))"
  proof (intro allI impI)
    fix i assume "is_complete (complete s) i \<or> (i, Success) \<in> set ?evs"
    then have c: "is_complete (complete s') i"
      by (simp add: s' marked_is_complete)
    then have n: "i \<notin> set (pending s')"
      by (auto dest: pending_not_complete)
    from c n psequence_skips [OF n]
    show "is_complete (complete s') i \<and> i \<notin> set (pending s') \<and>
         (\<forall>b v. psequence_Execute (s'\<lparr>pcomposite.nodes := (pcomposite.nodes s')[i := b]\<rparr>) v =
            (case psequence_Execute s' v of
               (r2, s2, v2) \<Rightarrow>
                 (r2, s2\<lparr>pcomposite.nodes := (pcomposite.nodes s')[i := b]\<rparr>, v2)))"
      by blast
  qed
next
  let ?evs = "fst (pass Failure (pcomposite.nodes s) (pending s) w)"
  assume a: "pselection_Execute s w = (r, s', w') \<and> (r = Success \<or> r = Unknown)"
  then have r: "r = verdict Failure Success ?evs"
    and s': "s' = s\<lparr>complete := marked Failure (complete s) ?evs\<rparr>"
    by (simp_all add: pselection_Execute_pass split: prod.splits)
  from a r show "aborted Failure ?evs"
    by (auto simp: verdict_def split: if_splits)
  from s' show "s' = s\<lparr>complete := marked Failure (complete s) ?evs\<rparr>" .
  show "\<forall>i. is_complete (complete s) i \<or> (i, Failure) \<in> set ?evs \<longrightarrow>
         is_complete (complete s') i \<and> i \<notin> set (pending s') \<and>
         (\<forall>b v. pselection_Execute (s'\<lparr>pcomposite.nodes := (pcomposite.nodes s')[i := b]\<rparr>) v =
            (case pselection_Execute s' v of
               (r2, s2, v2) \<Rightarrow>
                 (r2, s2\<lparr>pcomposite.nodes := (pcomposite.nodes s')[i := b]\<rparr>, v2)))"
  proof (intro allI impI)
    fix i assume "is_complete (complete s) i \<or> (i, Failure) \<in> set ?evs"
    then have c: "is_complete (complete s') i"
      by (simp add: s' marked_is_complete)
    then have n: "i \<notin> set (pending s')"
      by (auto dest: pending_not_complete)
    from c n pselection_skips [OF n]
    show "is_complete (complete s') i \<and> i \<notin> set (pending s') \<and>
         (\<forall>b v. pselection_Execute (s'\<lparr>pcomposite.nodes := (pcomposite.nodes s')[i := b]\<rparr>) v =
            (case pselection_Execute s' v of
               (r2, s2, v2) \<Rightarrow>
                 (r2, s2\<lparr>pcomposite.nodes := (pcomposite.nodes s')[i := b]\<rparr>, v2)))"
      by blast
  qed
qed

theorem abort_keeps_completed_witness:
  "psequence_Execute
     (PSequence [Recorded 0 [Success], Recorded 1 [Failure], Recorded 2 [Success]]) (\<lambda>_. 0)
   = (Failure,
      \<lparr>pcomposite.nodes = [Recorded 0 [Success], Recorded 1 [Failure], Recorded 2 [Success]],
       complete = [0 \<mapsto> True]\<rparr>,
      (\<lambda>_. 0)(0 := 1, 1 := 1))
   \<and> (0, Success) \<in> set (fst (pass Success
         [Recorded 0 [Success], Recorded 1 [Failure], Recorded 2 [Success]]
         (pending (PSequence [Recorded 0 [Success], Recorded 1 [Failure], Recorded 2 [Success]]))
         (\<lambda>_. 0)))
   \<and> is_complete [0 \<mapsto> True] 0
   \<and> 0 \<notin> set (pending
        \<lparr>pcomposite.nodes = [Recorded 0 [Success], Recorded 1 [Failure], Recorded 2 [Success]],
         complete = [0 \<mapsto> True]\<rparr>)
   \<and> fst (psequence_Execute
        \<lparr>pcomposite.nodes = [Recorded 0 [Success], Recorded 1 [Failure], Recorded 2 [Success]],
         complete = [0 \<mapsto> True]\<rparr> ((\<lambda>_. 0)(0 := 1, 1 := 1))) = Failure
   \<and> map (snd (snd (psequence_Execute
        \<lparr>pcomposite.nodes = [Recorded 0 [Success], Recorded 1 [Failure], Recorded 2 [Success]],
         complete = [0 \<mapsto> True]\<rparr> ((\<lambda>_. 0)(0 := 1, 1 := 1))))) [0, 1, 2] = [1, 2, 0]
   \<and> pselection_Execute
     (PSelection [Recorded 0 [Failure], Recorded 1 [Success]]) (\<lambda>_. 0)
   = (Success,
      \<lparr>pcomposite.nodes = [Recorded 0 [Failure], Recorded 1 [Success]],
       complete = [0 \<mapsto> True]\<rparr>,
      (\<lambda>_. 0)(0 := 1, 1 := 1))
   \<and> 0 \<notin> set (pending
        \<lparr>pcomposite.nodes = [Recorded 0 [Failure], Recorded 1 [Success]],
         complete = [0 \<mapsto> True]\<rparr>)"
proof -
  let ?ns = "[Recorded 0 [Success], Recorded 1 [Failure], Recorded 2 [Success]]"
  let ?ms = "[Recorded 0 [Failure], Recorded 1 [Success]]"
  have run: "psequence_Execute (PSequence ?ns) (\<lambda>_. 0)
     = (Failure, \<lparr>pcomposite.nodes = ?ns, complete = [0 \<mapsto> True]\<rparr>, (\<lambda>_. 0)(0 := 1, 1 := 1))"
    by (simp add: psequence_Execute_def PSequence_def Recorded_def Action_def is_complete_def)
  have run': "pselection_Execute (PSelection ?ms) (\<lambda>_. 0)
     = (Success, \<lparr>pcomposite.nodes = ?ms, complete = [0 \<mapsto> True]\<rparr>, (\<lambda>_. 0)(0 := 1, 1 := 1))"
    by (simp add: pselection_Execute_def PSelection_def Recorded_def Action_def is_complete_def)
  have ev: "(0, Success) \<in> set (fst (pass Success ?ns (pending (PSequence ?ns)) (\<lambda>_. 0)))"
    by (simp add: pending_def PSequence_def Recorded_def Action_def is_complete_def upt_rec)
  have ev': "(0, Failure) \<in> set (fst (pass Failure ?ms (pending (PSelection ?ms)) (\<lambda>_. 0)))"
    by (simp add: pending_def PSelection_def Recorded_def Action_def is_complete_def upt_rec)
  have n: "pcomposite.nodes (PSequence ?ns) = ?ns" "pcomposite.nodes (PSelection ?ms) = ?ms"
    by (simp_all add: PSequence_def PSelection_def)
  note t = abort_keeps_completed [THEN conjunct1, rule_format, of "PSequence ?ns" "\<lambda>_. 0",
      unfolded n, OF conjI [OF run disjI1 [OF refl]],
      THEN conjunct2, THEN conjunct2, THEN spec, THEN mp, OF disjI2 [OF ev]]
  from t [THEN conjunct1] t [THEN conjunct2, THEN conjunct1]
  have k: "is_complete [0 \<mapsto> True] 0 \<and>
     0 \<notin> set (pending \<lparr>pcomposite.nodes = ?ns, complete = [0 \<mapsto> True]\<rparr>)"
    by simp
  note t' = abort_keeps_completed [THEN conjunct2, rule_format, of "PSelection ?ms" "\<lambda>_. 0",
      unfolded n, OF conjI [OF run' disjI1 [OF refl]],
      THEN conjunct2, THEN conjunct2, THEN spec, THEN mp, OF disjI2 [OF ev']]
  from t' [THEN conjunct2, THEN conjunct1]
  have k': "0 \<notin> set (pending \<lparr>pcomposite.nodes = ?ms, complete = [0 \<mapsto> True]\<rparr>)"
    by simp
  have next_tick: "fst (psequence_Execute
        \<lparr>pcomposite.nodes = ?ns, complete = [0 \<mapsto> True]\<rparr> ((\<lambda>_. 0)(0 := 1, 1 := 1))) = Failure"
    "map (snd (snd (psequence_Execute
        \<lparr>pcomposite.nodes = ?ns, complete = [0 \<mapsto> True]\<rparr> ((\<lambda>_. 0)(0 := 1, 1 := 1)))))
       [0, 1, 2] = [1, 2, 0]"
    by (simp_all add: psequence_Execute_def Recorded_def Action_def is_complete_def)
  from run run' ev k k' next_tick show ?thesis
    by simp
qed

end
